theory Spec2Isabelle
  imports Complex_Main
begin

section \<open>LU decomposition without pivoting: \<open>getrf_nopivot.hpp\<close>\<close>

text \<open>
  The element type \<open>T\<close> of the template is modelled by an arbitrary field \<open>'a\<close> (exact
  arithmetic); in a HOL field \<open>x / 0 = 0\<close>, where IEEE arithmetic gives an infinity or a
  NaN, so nothing below is a statement about the value of a division by zero.

  The C arrays \<open>T A[NCU][NRCU][NCMAX]\<close> and \<open>T pivot[NCU][NCMAX]\<close> are functions of
  \<open>int\<close> indices with their dimensions passed along; every subscript of the source is
  checked against the dimension, and an access outside it is the error \<open>OutOfBounds\<close>
  (undefined behaviour in C++). The template parameter \<open>NCU\<close> is positive in every
  instantiation that compiles; all operands of \<open>/\<close> and \<open>%\<close> are non-negative there, so
  C++ truncation and HOL's \<open>div\<close>/\<open>mod\<close> agree. Index expressions of type \<open>int\<close> are
  computed in the integers: their overflow is not modelled.
\<close>

datatype error = OutOfBounds

type_synonym 'a vec = "int \<Rightarrow> 'a"
type_synonym 'a lane = "int \<Rightarrow> int \<Rightarrow> 'a"
type_synonym 'a lanes = "int \<Rightarrow> int \<Rightarrow> int \<Rightarrow> 'a"
type_synonym 'a pivots = "int \<Rightarrow> int \<Rightarrow> 'a"

definition inb :: "int \<Rightarrow> int \<Rightarrow> bool" where
  "inb N i = (0 \<le> i \<and> i < N)"

text \<open>Conversions between \<open>int\<close> and \<open>unsigned int\<close> (32 bits).\<close>

definition u32 :: "int \<Rightarrow> int" where
  "u32 x = x mod 2 ^ 32"

definition s32 :: "int \<Rightarrow> int" where
  "s32 x = (if x mod 2 ^ 32 < 2 ^ 31 then x mod 2 ^ 32 else x mod 2 ^ 32 - 2 ^ 32)"

text \<open>
  A counting loop \<open>for (int i = lo; i < hi; i++) body\<close> whose bounds the body does not
  change; the first error ends it.
\<close>

function for_loop :: "int \<Rightarrow> int \<Rightarrow> (int \<Rightarrow> 's \<Rightarrow> error + 's) \<Rightarrow> 's \<Rightarrow> error + 's" where
  "for_loop i hi body st =
     (if i < hi then
        (case body i st of Inl e \<Rightarrow> Inl e | Inr st' \<Rightarrow> for_loop (i + 1) hi body st')
      else Inr st)"
  by pat_completeness auto
termination
  by (relation "measure (\<lambda>(i, hi, body, st). nat (hi - i))") auto

declare for_loop.simps [simp del]

subsection \<open>\<open>rowUpdate\<close>\<close>

text \<open>
  \<open>LoopMulSub\<close> counts with an \<open>unsigned int i\<close> up to \<open>nrows * ncols\<close> converted to
  unsigned; \<open>i / ncols\<close> and \<open>i % ncols\<close> are unsigned operations and the results are
  converted back to \<open>int\<close>. The product \<open>nrows * ncols\<close> is taken in the integers (signed
  overflow is not modelled; the theorems assume a buffer of fewer than \<open>2^31\<close> cells).
  \<open>a00 = pivot[cs]\<close> is read first, although never used.
\<close>

definition LoopMulSub_body ::
  "int \<Rightarrow> int \<Rightarrow> 'a::field vec \<Rightarrow> int \<Rightarrow> int \<Rightarrow> int \<Rightarrow> int \<Rightarrow> 'a lane \<Rightarrow> error + 'a lane" where
  "LoopMulSub_body NRCU NCMAX pivot rs cs ncols i A =
     (let r = s32 (u32 i div u32 ncols + u32 rs);
          c = s32 (u32 i mod u32 ncols + u32 cs + 1)
      in if inb NRCU r \<and> inb NCMAX c \<and> inb NCMAX cs
         then Inr (A(r := (A r)(c := A r c - A r cs * pivot c)))
         else Inl OutOfBounds)"

definition rowUpdate ::
  "int \<Rightarrow> int \<Rightarrow> 'a::field lane \<Rightarrow> 'a vec \<Rightarrow> int \<Rightarrow> int \<Rightarrow> int \<Rightarrow> int \<Rightarrow> error + 'a lane" where
  "rowUpdate NRCU NCMAX A pivot rs re cs ce =
     (if \<not> inb NCMAX cs then Inl OutOfBounds
      else
        (let nrows = re - rs + 1;
             ncols = ce - cs
         in for_loop 0 (u32 (nrows * ncols)) (LoopMulSub_body NRCU NCMAX pivot rs cs ncols) A))"

subsection \<open>\<open>getrf_nopivot_core\<close>\<close>

text \<open>\<open>LoopPivot\<close>: every lane's copy of the pivot row, columns \<open>s .. n-1\<close>.\<close>

definition LoopPivot_lane ::
  "int \<Rightarrow> int \<Rightarrow> int \<Rightarrow> 'a lanes \<Rightarrow> int \<Rightarrow> int \<Rightarrow> int \<Rightarrow> 'a pivots \<Rightarrow> error + 'a pivots" where
  "LoopPivot_lane NCU NRCU NCMAX A s k r pivot =
     (if inb NCU r \<and> inb NCMAX k \<and> inb NCU (s mod NCU) \<and> inb NRCU (s div NCU)
      then Inr (pivot(r := (pivot r)(k := A (s mod NCU) (s div NCU) k)))
      else Inl OutOfBounds)"

definition LoopPivot ::
  "int \<Rightarrow> int \<Rightarrow> int \<Rightarrow> 'a lanes \<Rightarrow> int \<Rightarrow> int \<Rightarrow> 'a pivots \<Rightarrow> error + 'a pivots" where
  "LoopPivot NCU NRCU NCMAX A s n pivot =
     for_loop s n (\<lambda>k. for_loop 0 NCU (LoopPivot_lane NCU NRCU NCMAX A s k)) pivot"

text \<open>\<open>LoopDiv\<close>: column \<open>s\<close> of the rows \<open>s+1 .. m-1\<close> is divided by \<open>a00\<close>.\<close>

definition LoopDiv_body ::
  "int \<Rightarrow> int \<Rightarrow> int \<Rightarrow> int \<Rightarrow> 'a::field \<Rightarrow> int \<Rightarrow> 'a lanes \<Rightarrow> error + 'a lanes" where
  "LoopDiv_body NCU NRCU NCMAX s a00 j A =
     (let i = j mod NCU;
          r = j div NCU
      in if inb NCU i \<and> inb NRCU r \<and> inb NCMAX s
         then Inr (A(i := (A i)(r := (A i r)(s := A i r s / a00))))
         else Inl OutOfBounds)"

definition LoopDiv ::
  "int \<Rightarrow> int \<Rightarrow> int \<Rightarrow> int \<Rightarrow> int \<Rightarrow> 'a::field \<Rightarrow> 'a lanes \<Rightarrow> error + 'a lanes" where
  "LoopDiv NCU NRCU NCMAX s m a00 A = for_loop (s + 1) m (LoopDiv_body NCU NRCU NCMAX s a00) A"

text \<open>\<open>LoopMat\<close>: each lane updates its rows from local offset \<open>rs\<close> on.\<close>

definition LoopMat_body ::
  "int \<Rightarrow> int \<Rightarrow> int \<Rightarrow> int \<Rightarrow> 'a::field pivots \<Rightarrow> int \<Rightarrow> 'a lanes \<Rightarrow> error + 'a lanes" where
  "LoopMat_body NCU NRCU NCMAX s pivot i A =
     (let rs = (if i \<le> s mod NCU then s div NCU + 1 else s div NCU);
          re = NRCU - 1;
          cs = s;
          ce = NCMAX - 1
      in if inb NCU i
         then (case rowUpdate NRCU NCMAX (A i) (pivot i) rs re cs ce of
                 Inl e \<Rightarrow> Inl e
               | Inr Ai \<Rightarrow> Inr (A(i := Ai)))
         else Inl OutOfBounds)"

definition LoopMat ::
  "int \<Rightarrow> int \<Rightarrow> int \<Rightarrow> int \<Rightarrow> 'a::field pivots \<Rightarrow> 'a lanes \<Rightarrow> error + 'a lanes" where
  "LoopMat NCU NRCU NCMAX s pivot A = for_loop 0 NCU (LoopMat_body NCU NRCU NCMAX s pivot) A"

text \<open>
  One iteration of \<open>LoopSweeps\<close>. The array \<open>pivot\<close> is declared in the loop body and not
  initialised: its content on entry is the parameter \<open>pivot0\<close>.
\<close>

definition sweep ::
  "int \<Rightarrow> int \<Rightarrow> int \<Rightarrow> (int \<Rightarrow> 'a::field pivots) \<Rightarrow> int \<Rightarrow> int \<Rightarrow> int \<Rightarrow> 'a lanes \<Rightarrow> error + 'a lanes" where
  "sweep NRCU NCMAX NCU pivot0 m n s A =
     (case LoopPivot NCU NRCU NCMAX A s n (pivot0 s) of
        Inl e \<Rightarrow> Inl e
      | Inr pivot \<Rightarrow>
          if inb NCU 0 \<and> inb NCMAX s then
            (let a00 = pivot 0 s
             in case LoopDiv NCU NRCU NCMAX s m a00 A of
                  Inl e \<Rightarrow> Inl e
                | Inr A1 \<Rightarrow> LoopMat NCU NRCU NCMAX s pivot A1)
          else Inl OutOfBounds)"

definition getrf_nopivot_core ::
  "int \<Rightarrow> int \<Rightarrow> int \<Rightarrow> (int \<Rightarrow> 'a::field pivots) \<Rightarrow> int \<Rightarrow> int \<Rightarrow> 'a lanes \<Rightarrow> int \<Rightarrow> error + 'a lanes" where
  "getrf_nopivot_core NRCU NCMAX NCU pivot0 m n A lda =
     for_loop 0 (m - 1) (sweep NRCU NCMAX NCU pivot0 m n) A"

subsection \<open>\<open>getrf_nopivot\<close>\<close>

text \<open>
  The external buffer \<open>T* A\<close> is a list; an offset outside it is \<open>OutOfBounds\<close>. The local
  array \<open>matA\<close> is not initialised: its content on entry is the parameter \<open>matA0\<close>.
  The reference parameter \<open>info\<close> is returned with the buffer.
\<close>

definition LoopRead_body ::
  "int \<Rightarrow> int \<Rightarrow> int \<Rightarrow> 'a list \<Rightarrow> int \<Rightarrow> int \<Rightarrow> int \<Rightarrow> 'a lanes \<Rightarrow> error + 'a lanes" where
  "LoopRead_body NCU NRCU NCMAX A lda r c matA =
     (if inb NCU (r mod NCU) \<and> inb NRCU (r div NCU) \<and> inb NCMAX c \<and> inb (int (length A)) (lda * r + c)
      then Inr (matA(r mod NCU := (matA (r mod NCU))(r div NCU := (matA (r mod NCU) (r div NCU))(c := A ! nat (lda * r + c)))))
      else Inl OutOfBounds)"

definition LoopRead ::
  "int \<Rightarrow> int \<Rightarrow> int \<Rightarrow> int \<Rightarrow> int \<Rightarrow> 'a list \<Rightarrow> int \<Rightarrow> 'a lanes \<Rightarrow> error + 'a lanes" where
  "LoopRead NCU NRCU NCMAX m n A lda matA =
     for_loop 0 m (\<lambda>r. for_loop 0 n (LoopRead_body NCU NRCU NCMAX A lda r)) matA"

definition LoopWrite_body ::
  "int \<Rightarrow> int \<Rightarrow> int \<Rightarrow> 'a lanes \<Rightarrow> int \<Rightarrow> int \<Rightarrow> int \<Rightarrow> 'a list \<Rightarrow> error + 'a list" where
  "LoopWrite_body NCU NRCU NCMAX matA lda r c A =
     (if inb NCU (r mod NCU) \<and> inb NRCU (r div NCU) \<and> inb NCMAX c \<and> inb (int (length A)) (r * lda + c)
      then Inr (A[nat (r * lda + c) := matA (r mod NCU) (r div NCU) c])
      else Inl OutOfBounds)"

definition LoopWrite ::
  "int \<Rightarrow> int \<Rightarrow> int \<Rightarrow> int \<Rightarrow> int \<Rightarrow> 'a lanes \<Rightarrow> int \<Rightarrow> 'a list \<Rightarrow> error + 'a list" where
  "LoopWrite NCU NRCU NCMAX m n matA lda A =
     for_loop 0 m (\<lambda>r. for_loop 0 n (LoopWrite_body NCU NRCU NCMAX matA lda r)) A"

definition getrf_nopivot ::
  "int \<Rightarrow> int \<Rightarrow> int \<Rightarrow> 'a::field lanes \<Rightarrow> (int \<Rightarrow> 'a pivots) \<Rightarrow> int \<Rightarrow> int \<Rightarrow> 'a list \<Rightarrow> int \<Rightarrow> int
     \<Rightarrow> error + ('a list \<times> int)" where
  "getrf_nopivot NRMAX NCMAX NCU matA0 pivot0 m n A lda info =
     (let NRCU = (NRMAX + NCU - 1) div NCU
      in case LoopRead NCU NRCU NCMAX m n A lda matA0 of
           Inl e \<Rightarrow> Inl e
         | Inr matA \<Rightarrow>
             (case getrf_nopivot_core NRCU NCMAX NCU pivot0 m n matA lda of
                Inl e \<Rightarrow> Inl e
              | Inr matA' \<Rightarrow>
                  (case LoopWrite NCU NRCU NCMAX m n matA' lda A of
                     Inl e \<Rightarrow> Inl e
                   | Inr A' \<Rightarrow> Inr (A', info))))"

section \<open>Notions used in the properties\<close>

subsection \<open>Buffers\<close>

text \<open>The external buffer \<open>A'\<close> differs from \<open>A\<close> at most at the offsets \<open>r * lda + c\<close> of the matrix.\<close>

definition frame_ok :: "int \<Rightarrow> int \<Rightarrow> int \<Rightarrow> 'a list \<Rightarrow> 'a list \<Rightarrow> bool" where
  "frame_ok m n lda A A' =
     (length A' = length A \<and>
      (\<forall>k < length A. (\<forall>r c. 0 \<le> r \<and> r < m \<and> 0 \<le> c \<and> c < n \<longrightarrow> int k \<noteq> r * lda + c) \<longrightarrow> A' ! k = A ! k))"

text \<open>
  Row distribution: row \<open>j\<close> of the matrix is kept by lane \<open>j mod NCU\<close> at local row
  \<open>j div NCU\<close>; \<open>cell NCU A j c\<close> is the entry \<open>A[j][c]\<close> of the matrix in the internal buffer.
\<close>

definition cell :: "int \<Rightarrow> 'a lanes \<Rightarrow> int \<Rightarrow> int \<Rightarrow> 'a" where
  "cell NCU A j c = A (j mod NCU) (j div NCU) c"

text \<open>What the three stages of a step and the whole step leave behind, in closed form.\<close>

definition LoopPivot_post :: "int \<Rightarrow> 'a lanes \<Rightarrow> int \<Rightarrow> int \<Rightarrow> 'a pivots \<Rightarrow> 'a pivots" where
  "LoopPivot_post NCU A s n pv =
     (\<lambda>r k. if inb NCU r \<and> s \<le> k \<and> k < n then cell NCU A s k else pv r k)"

definition LoopDiv_post :: "int \<Rightarrow> int \<Rightarrow> int \<Rightarrow> 'a::field \<Rightarrow> 'a lanes \<Rightarrow> 'a lanes" where
  "LoopDiv_post NCU s m a00 A =
     (\<lambda>i r c. if inb NCU i \<and> c = s \<and> s < r * NCU + i \<and> r * NCU + i < m
               then A i r c / a00 else A i r c)"

definition LoopMat_post :: "int \<Rightarrow> int \<Rightarrow> int \<Rightarrow> int \<Rightarrow> 'a::field pivots \<Rightarrow> 'a lanes \<Rightarrow> 'a lanes" where
  "LoopMat_post NCU NRCU NCMAX s pv A =
     (\<lambda>i r c. if inb NCU i \<and> r < NRCU \<and> s < r * NCU + i \<and> s < c \<and> c < NCMAX
               then A i r c - A i r s * pv i c else A i r c)"

definition sweep_post ::
  "int \<Rightarrow> int \<Rightarrow> int \<Rightarrow> (int \<Rightarrow> 'a::field pivots) \<Rightarrow> int \<Rightarrow> int \<Rightarrow> int \<Rightarrow> 'a lanes \<Rightarrow> 'a lanes" where
  "sweep_post NRCU NCMAX NCU pivot0 m n s A =
     (let pivot = LoopPivot_post NCU A s n (pivot0 s)
      in LoopMat_post NCU NRCU NCMAX s pivot (LoopDiv_post NCU s m (pivot 0 s) A))"

text \<open>Every offset \<open>lda * r + c\<close> of the \<open>m\<close> by \<open>n\<close> matrix lies in the external buffer.\<close>

definition ext_ok :: "int \<Rightarrow> int \<Rightarrow> int \<Rightarrow> 'a list \<Rightarrow> bool" where
  "ext_ok m n lda A = (\<forall>r c. 0 \<le> r \<and> r < m \<and> 0 \<le> c \<and> c < n \<longrightarrow> inb (int (length A)) (lda * r + c))"

subsection \<open>The elimination on the matrix\<close>

text \<open>
  The elimination step on the matrix itself (rows \<open>j\<close>, columns \<open>c\<close>), without lanes and
  padding: the multipliers go to column \<open>s\<close>, the trailing block gets the rank-1 update.
\<close>

definition elim_step :: "int \<Rightarrow> (int \<Rightarrow> int \<Rightarrow> 'a::field) \<Rightarrow> int \<Rightarrow> int \<Rightarrow> 'a" where
  "elim_step s M =
     (\<lambda>j c. if s < j \<and> s < c then M j c - M j s / M s s * M s c
            else if s < j \<and> c = s then M j s / M s s
            else M j c)"

text \<open>Two matrices with the same entries in the rows \<open>0 .. m-1\<close> and columns \<open>0 .. n-1\<close>.\<close>

definition agree :: "int \<Rightarrow> int \<Rightarrow> (int \<Rightarrow> int \<Rightarrow> 'a) \<Rightarrow> (int \<Rightarrow> int \<Rightarrow> 'a) \<Rightarrow> bool" where
  "agree m n M M' = (\<forall>j c. 0 \<le> j \<and> j < m \<and> 0 \<le> c \<and> c < n \<longrightarrow> M j c = M' j c)"

text \<open>The steps \<open>s, s+1, ..., hi-1\<close> in sequence.\<close>

function elim :: "int \<Rightarrow> int \<Rightarrow> (int \<Rightarrow> int \<Rightarrow> 'a::field) \<Rightarrow> int \<Rightarrow> int \<Rightarrow> 'a" where
  "elim s hi M = (if s < hi then elim (s + 1) hi (elim_step s M) else M)"
  by pat_completeness auto

termination
  by (relation "measure (\<lambda>(s, hi, M). nat (hi - s))") auto

subsection \<open>Determinants and factors\<close>

text \<open>
  Determinants of the leading blocks, by cofactor expansion along the first column:
  \<open>det n A\<close> is the determinant of the rows and columns \<open>0 .. n-1\<close> of \<open>A\<close>, and
  \<open>minor_mat i A\<close> drops row \<open>i\<close> and column \<open>0\<close>.
\<close>

definition minor_mat :: "nat \<Rightarrow> (nat \<Rightarrow> nat \<Rightarrow> 'a) \<Rightarrow> nat \<Rightarrow> nat \<Rightarrow> 'a" where
  "minor_mat i A = (\<lambda>r c. A (if r < i then r else Suc r) (Suc c))"

primrec det :: "nat \<Rightarrow> (nat \<Rightarrow> nat \<Rightarrow> 'a::comm_ring_1) \<Rightarrow> 'a" where
  "det 0 A = 1"
| "det (Suc n) A = (\<Sum>i < Suc n. (- 1) ^ i * A i 0 * det n (minor_mat i A))"

text \<open>The matrix with row \<open>i\<close> replaced by the vector \<open>v\<close>.\<close>

definition row_set :: "nat \<Rightarrow> (nat \<Rightarrow> 'a) \<Rightarrow> (nat \<Rightarrow> nat \<Rightarrow> 'a) \<Rightarrow> nat \<Rightarrow> nat \<Rightarrow> 'a" where
  "row_set i v A = (\<lambda>r c. if r = i then v c else A r c)"

text \<open>
  The factors read from a matrix that holds both: \<open>L\<close> is the strict lower part with a
  unit diagonal, \<open>U\<close> the upper part with the diagonal.
\<close>

definition Lf :: "(int \<Rightarrow> int \<Rightarrow> 'a::field) \<Rightarrow> int \<Rightarrow> int \<Rightarrow> 'a" where
  "Lf M j k = (if k < j then M j k else if k = j then 1 else 0)"

definition Uf :: "(int \<Rightarrow> int \<Rightarrow> 'a::field) \<Rightarrow> int \<Rightarrow> int \<Rightarrow> 'a" where
  "Uf M k c = (if k \<le> c then M k c else 0)"

text \<open>The matrix after \<open>s\<close> steps with the stored multipliers read as the zeros they stand for.\<close>

definition reduced :: "int \<Rightarrow> (int \<Rightarrow> int \<Rightarrow> 'a::field) \<Rightarrow> int \<Rightarrow> int \<Rightarrow> 'a" where
  "reduced s M = (\<lambda>j c. if c < s \<and> c < j then 0 else M j c)"

text \<open>A matrix indexed by integers, for \<open>det\<close>.\<close>

definition block :: "(int \<Rightarrow> int \<Rightarrow> 'a) \<Rightarrow> nat \<Rightarrow> nat \<Rightarrow> 'a" where
  "block M = (\<lambda>r c. M (int r) (int c))"

text \<open>
  The factors read from the external buffer after the call, their product, and the leading
  principal minors of the matrix in the external buffer before it.
\<close>

definition Lmat :: "int \<Rightarrow> 'a::field list \<Rightarrow> int \<Rightarrow> int \<Rightarrow> 'a" where
  "Lmat lda B j k = (if k < j then B ! nat (lda * j + k) else if k = j then 1 else 0)"

definition Umat :: "int \<Rightarrow> 'a::field list \<Rightarrow> int \<Rightarrow> int \<Rightarrow> 'a" where
  "Umat lda B k c = (if k \<le> c then B ! nat (lda * k + c) else 0)"

definition LU_product :: "int \<Rightarrow> int \<Rightarrow> int \<Rightarrow> 'a::field list \<Rightarrow> int \<Rightarrow> int \<Rightarrow> 'a" where
  "LU_product m n lda B j c = (\<Sum>k = 0..<min m n. Lmat lda B j k * Umat lda B k c)"

definition leading_minor :: "int \<Rightarrow> 'a::field list \<Rightarrow> nat \<Rightarrow> 'a" where
  "leading_minor lda A k = det k (\<lambda>r c. A ! nat (lda * int r + int c))"

section \<open>Counting loops\<close>

lemma for_loop_done: "hi \<le> i \<Longrightarrow> for_loop i hi body st = Inr st"
  by (simp add: for_loop.simps)

lemma for_loop_step:
  "i < hi \<Longrightarrow> for_loop i hi body st =
     (case body i st of Inl e \<Rightarrow> Inl e | Inr st' \<Rightarrow> for_loop (i + 1) hi body st')"
  by (subst for_loop.simps) simp

lemma for_loop_partial:
  assumes "for_loop lo hi body st = Inr st'"
    and "P lo st"
    and "\<And>i s s'. lo \<le> i \<Longrightarrow> i < hi \<Longrightarrow> P i s \<Longrightarrow> body i s = Inr s' \<Longrightarrow> P (i + 1) s'"
  shows "P (max lo hi) st'"
  using assms
proof (induction lo hi body st rule: for_loop.induct)
  case (1 i hi body st)
  show ?case
  proof (cases "i < hi")
    case False
    with "1.prems"(1,2) show ?thesis by (simp add: for_loop_done max_def)
  next
    case True
    from "1.prems"(1) True obtain s1 where b: "body i st = Inr s1"
      and r: "for_loop (i + 1) hi body s1 = Inr st'"
      by (auto simp: for_loop_step split: sum.splits)
    have P1: "P (i + 1) s1" using "1.prems"(2,3) True b by auto
    have "P (max (i + 1) hi) st'"
      by (rule "1.IH"[OF True b r P1]) (use "1.prems"(3) in auto)
    with True show ?thesis by (simp add: max_def)
  qed
qed

lemma for_loop_total:
  assumes "lo \<le> hi"
    and "P lo st"
    and "\<And>i s. lo \<le> i \<Longrightarrow> i < hi \<Longrightarrow> P i s \<Longrightarrow> \<exists>s'. body i s = Inr s' \<and> P (i + 1) s'"
  shows "\<exists>st'. for_loop lo hi body st = Inr st' \<and> P hi st'"
  using assms
proof (induction lo hi body st rule: for_loop.induct)
  case (1 i hi body st)
  show ?case
  proof (cases "i < hi")
    case False
    with "1.prems"(1,2) show ?thesis by (simp add: for_loop_done)
  next
    case True
    from "1.prems"(2,3) True obtain s1 where b: "body i st = Inr s1" and P1: "P (i + 1) s1"
      by blast
    have "\<exists>st'. for_loop (i + 1) hi body s1 = Inr st' \<and> P hi st'"
      by (rule "1.IH"[OF True b _ P1]) (use True "1.prems"(3) in auto)
    with True b show ?thesis by (simp add: for_loop_step)
  qed
qed

text \<open>Two loops whose bodies are related step by step.\<close>

lemma for_loop_rel:
  assumes "R lo s1 s2"
    and "\<And>i a b. lo \<le> i \<Longrightarrow> i < hi \<Longrightarrow> R i a b \<Longrightarrow>
            (\<exists>e. body1 i a = Inl e \<and> body2 i b = Inl e) \<or>
            (\<exists>a' b'. body1 i a = Inr a' \<and> body2 i b = Inr b' \<and> R (i + 1) a' b')"
  shows "(\<exists>e. for_loop lo hi body1 s1 = Inl e \<and> for_loop lo hi body2 s2 = Inl e) \<or>
         (\<exists>a' b'. for_loop lo hi body1 s1 = Inr a' \<and> for_loop lo hi body2 s2 = Inr b' \<and> R (max lo hi) a' b')"
  using assms
proof (induction lo hi body1 s1 arbitrary: s2 rule: for_loop.induct)
  case (1 i hi body1 s1)
  show ?case
  proof (cases "i < hi")
    case False
    with "1.prems"(1) show ?thesis by (simp add: for_loop_done max_def)
  next
    case True
    from "1.prems"(2)[OF _ True "1.prems"(1)]
    consider e where "body1 i s1 = Inl e" "body2 i s2 = Inl e"
      | a' b' where "body1 i s1 = Inr a'" "body2 i s2 = Inr b'" "R (i + 1) a' b'"
      by auto
    then show ?thesis
    proof cases
      case 1
      with True show ?thesis by (simp add: for_loop_step)
    next
      case 2
      have "(\<exists>e. for_loop (i + 1) hi body1 a' = Inl e \<and> for_loop (i + 1) hi body2 b' = Inl e) \<or>
         (\<exists>a'' b''. for_loop (i + 1) hi body1 a' = Inr a'' \<and> for_loop (i + 1) hi body2 b' = Inr b'' \<and> R (max (i + 1) hi) a'' b'')"
        by (rule "1.IH"[OF True 2(1) 2(3)]) (use "1.prems"(2) in auto)
      with True 2 show ?thesis by (simp add: for_loop_step max_def)
    qed
  qed
qed

section \<open>The external buffer\<close>

lemma LoopWrite_body_frame:
  assumes "LoopWrite_body NCU NRCU NCMAX matA lda r c B = Inr B'"
    and "0 \<le> r" "r < m" "0 \<le> c" "c < n" "frame_ok m n lda A B"
  shows "frame_ok m n lda A B'"
proof -
  from assms(1) have B': "B' = B[nat (r * lda + c) := matA (r mod NCU) (r div NCU) c]"
    and ib: "inb (int (length B)) (r * lda + c)"
    by (auto simp: LoopWrite_body_def split: if_splits)
  have "B' ! k = A ! k" if "k < length A"
    and "\<forall>r c. 0 \<le> r \<and> r < m \<and> 0 \<le> c \<and> c < n \<longrightarrow> int k \<noteq> r * lda + c" for k
  proof -
    from that(2) assms(2-5) have "int k \<noteq> r * lda + c" by blast
    with ib have "k \<noteq> nat (r * lda + c)" by (auto simp: inb_def)
    then have "B' ! k = B ! k" by (simp add: B')
    with assms(6) that show ?thesis by (simp add: frame_ok_def)
  qed
  moreover have "length B' = length A" using assms(6) by (simp add: B' frame_ok_def)
  ultimately show ?thesis by (simp add: frame_ok_def)
qed

lemma LoopWrite_frame:
  assumes "LoopWrite NCU NRCU NCMAX m n matA lda A = Inr A'"
  shows "frame_ok m n lda A A'"
proof -
  have "(\<lambda>_. frame_ok m n lda A) (max 0 m) A'"
  proof (rule for_loop_partial[OF assms[unfolded LoopWrite_def], where P = "\<lambda>_. frame_ok m n lda A"])
    show "frame_ok m n lda A A" by (simp add: frame_ok_def)
  next
    fix r B B'
    assume r: "0 \<le> r" "r < m" and B: "frame_ok m n lda A B"
      and run: "for_loop 0 n (LoopWrite_body NCU NRCU NCMAX matA lda r) B = Inr B'"
    have "(\<lambda>_. frame_ok m n lda A) (max 0 n) B'"
      by (rule for_loop_partial[OF run, where P = "\<lambda>_. frame_ok m n lda A"])
         (use B r in \<open>auto intro: LoopWrite_body_frame\<close>)
    then show "frame_ok m n lda A B'" .
  qed
  then show ?thesis .
qed

text \<open>
  C10: \<open>getrf_nopivot\<close> writes the external buffer only at the offsets \<open>r * lda + c\<close> with
  \<open>0 \<le> r < m\<close> and \<open>0 \<le> c < n\<close>: the buffer keeps its length and every other element,
  in particular the padding between the rows when \<open>lda > n\<close>, is unchanged on return.
\<close>

theorem getrf_nopivot_frame:
  assumes "getrf_nopivot NRMAX NCMAX NCU matA0 pivot0 m n A lda info = Inr (A', info')"
  shows "length A' = length A \<and>
         (\<forall>k < length A. (\<forall>r c. 0 \<le> r \<and> r < m \<and> 0 \<le> c \<and> c < n \<longrightarrow> int k \<noteq> r * lda + c)
              \<longrightarrow> A' ! k = A ! k)"
proof -
  from assms obtain matA' where "LoopWrite NCU ((NRMAX + NCU - 1) div NCU) NCMAX m n matA' lda A = Inr A'"
    by (auto simp: getrf_nopivot_def Let_def split: sum.splits)
  from LoopWrite_frame[OF this] show ?thesis by (simp add: frame_ok_def)
qed

theorem getrf_nopivot_frame_witness:
  "getrf_nopivot 2 2 2 (\<lambda>_ _ _. 9) (\<lambda>_ _ _. 7) 2 2 [4, 3, 77, 6, 3, 88 :: rat] 3 0
     = Inr ([4, 3, 77, 3 / 2, - 3 / 2, 88], 0) \<and>
   [4, 3, 77, 3 / 2, - 3 / 2, 88 :: rat] ! 2 = [4, 3, 77, 6, 3, 88] ! 2"
proof -
  have run: "getrf_nopivot 2 2 2 (\<lambda>_ _ _. 9) (\<lambda>_ _ _. 7) 2 2 [4, 3, 77, 6, 3, 88 :: rat] 3 0
     = Inr ([4, 3, 77, 3 / 2, - 3 / 2, 88], 0)"
    by code_simp
  have off: "\<forall>r c. 0 \<le> r \<and> r < 2 \<and> 0 \<le> c \<and> c < 2 \<longrightarrow> int 2 \<noteq> r * 3 + c"
    by (intro allI impI) arith
  from getrf_nopivot_frame[OF run] off
  have "[4, 3, 77, 3 / 2, - 3 / 2, 88 :: rat] ! 2 = [4, 3, 77, 6, 3, 88] ! 2"
    by (simp del: nth_Cons_numeral)
  with run show ?thesis by blast
qed

text \<open>
  C5: \<open>getrf_nopivot\<close> never assigns \<open>info\<close>: whenever it returns, also after a division by a
  zero pivot, \<open>info\<close> has the value the caller supplied, so a singular pivot is not reported.
\<close>

theorem getrf_nopivot_info:
  assumes "getrf_nopivot NRMAX NCMAX NCU matA0 pivot0 m n A lda info = Inr (A', info')"
  shows "info' = info"
  using assms by (auto simp: getrf_nopivot_def Let_def split: sum.splits)

theorem getrf_nopivot_info_witness:
  "getrf_nopivot 2 2 1 (\<lambda>_ _ _. 9) (\<lambda>_ _ _. 7) 2 2 [0, 1, 1, 1 :: rat] 2 0 = Inr ([0, 1, 0, 1], 0) \<and>
   (0 :: int) = 0"
proof -
  have run: "getrf_nopivot 2 2 1 (\<lambda>_ _ _. 9) (\<lambda>_ _ _. 7) 2 2 [0, 1, 1, 1 :: rat] 2 0 = Inr ([0, 1, 0, 1], 0)"
    by code_simp
  from getrf_nopivot_info[OF run] run show ?thesis by blast
qed

section \<open>The stages of one elimination step\<close>

lemma lane_row_unique:
  fixes NCU :: int
  assumes "0 < NCU" "inb NCU i"
  shows "r * NCU + i = j \<longleftrightarrow> i = j mod NCU \<and> r = j div NCU"
proof
  assume "r * NCU + i = j"
  with assms show "i = j mod NCU \<and> r = j div NCU"
    by (auto simp: inb_def)
next
  assume "i = j mod NCU \<and> r = j div NCU"
  then show "r * NCU + i = j" by simp
qed

lemma inb_mod: "0 < NCU \<Longrightarrow> inb NCU (j mod NCU)"
  by (simp add: inb_def)

lemma div_less_rows:
  fixes NCU :: int
  assumes "0 < NCU" "j < NCU * NRCU"
  shows "j div NCU < NRCU"
proof -
  have "NCU * (j div NCU) \<le> j"
    using assms(1) by (metis mult.commute div_mult_mod_eq pos_mod_sign add.commute le_add_same_cancel2 order_refl add_increasing2)
  with assms(2) have "NCU * (j div NCU) < NCU * NRCU" by simp
  with assms(1) show ?thesis by (simp add: mult_less_cancel_left_pos)
qed

lemma LoopDiv_closed:
  fixes a00 :: "'a::field"
  assumes "0 < NCU" "0 \<le> s" "s < m" "m \<le> NCU * NRCU" "inb NCMAX s"
  shows "LoopDiv NCU NRCU NCMAX s m a00 A =
     Inr (\<lambda>i r c. if inb NCU i \<and> c = s \<and> s < r * NCU + i \<and> r * NCU + i < m
                    then A i r c / a00 else A i r c)"
proof -
  let ?F = "\<lambda>j. (\<lambda>i r c. if inb NCU i \<and> c = s \<and> s < r * NCU + i \<and> r * NCU + i < j
                    then A i r c / a00 else A i r c)"
  have "\<exists>A'. for_loop (s + 1) m (LoopDiv_body NCU NRCU NCMAX s a00) A = Inr A' \<and> A' = ?F m"
  proof (rule for_loop_total[where P = "\<lambda>j B. B = ?F j"])
    show "s + 1 \<le> m" using assms by simp
    show "A = ?F (s + 1)" by (auto simp: fun_eq_iff)
  next
    fix j B
    assume j: "s + 1 \<le> j" "j < m" and B: "B = ?F j"
    have jr: "inb NRCU (j div NCU)"
      using j assms div_less_rows[of NCU j NRCU] by (auto simp: inb_def pos_imp_zdiv_nonneg_iff)
    have upd: "B(j mod NCU := (B (j mod NCU))(j div NCU := (B (j mod NCU) (j div NCU))
                (s := B (j mod NCU) (j div NCU) s / a00))) = ?F (j + 1)"
    proof (intro ext)
      fix i r c
      have u: "r * NCU + i = j \<longleftrightarrow> i = j mod NCU \<and> r = j div NCU" if "inb NCU i"
        using lane_row_unique[OF assms(1) that] .
      have lt: "r * NCU + i < j + 1 \<longleftrightarrow> r * NCU + i < j \<or> r * NCU + i = j" by auto
      show "(B(j mod NCU := (B (j mod NCU))(j div NCU := (B (j mod NCU) (j div NCU))
                (s := B (j mod NCU) (j div NCU) s / a00)))) i r c = ?F (j + 1) i r c"
        using u j inb_mod[OF assms(1), of j] unfolding B lt
        by (cases "inb NCU i") (auto simp: fun_upd_def)
    qed
    show "\<exists>B'. LoopDiv_body NCU NRCU NCMAX s a00 j B = Inr B' \<and> B' = ?F (j + 1)"
      using jr inb_mod[OF assms(1)] assms(5) upd by (simp add: LoopDiv_body_def Let_def)
  qed
  then show ?thesis by (simp add: LoopDiv_def)
qed

lemma LoopPivot_lanes_closed:
  assumes "0 < NCU" "0 \<le> s" "s div NCU < NRCU" "inb NCMAX k"
  shows "for_loop 0 NCU (LoopPivot_lane NCU NRCU NCMAX A s k) pv =
     Inr (\<lambda>r k'. if inb NCU r \<and> k' = k then A (s mod NCU) (s div NCU) k else pv r k')"
proof -
  let ?F = "\<lambda>x. (\<lambda>r k'. if 0 \<le> r \<and> r < x \<and> k' = k then A (s mod NCU) (s div NCU) k else pv r k')"
  have "\<exists>p'. for_loop 0 NCU (LoopPivot_lane NCU NRCU NCMAX A s k) pv = Inr p' \<and> p' = ?F NCU"
  proof (rule for_loop_total[where P = "\<lambda>x p. p = ?F x"])
    show "0 \<le> NCU" using assms by simp
    show "pv = ?F 0" by (auto simp: fun_eq_iff)
  next
    fix r p
    assume r: "0 \<le> r" "r < NCU" and p: "p = ?F r"
    have sr: "inb NRCU (s div NCU)"
      using assms by (simp add: inb_def pos_imp_zdiv_nonneg_iff)
    have "p(r := (p r)(k := A (s mod NCU) (s div NCU) k)) = ?F (r + 1)"
      unfolding p using r by (auto simp: fun_eq_iff)
    then show "\<exists>p'. LoopPivot_lane NCU NRCU NCMAX A s k r p = Inr p' \<and> p' = ?F (r + 1)"
      using r sr assms(4) inb_mod[OF assms(1)] by (simp add: LoopPivot_lane_def inb_def)
  qed
  then show ?thesis by (simp add: inb_def)
qed

lemma LoopPivot_closed:
  assumes "0 < NCU" "0 \<le> s" "s div NCU < NRCU" "n \<le> NCMAX"
  shows "LoopPivot NCU NRCU NCMAX A s n pv =
     Inr (\<lambda>r k. if inb NCU r \<and> s \<le> k \<and> k < n then A (s mod NCU) (s div NCU) k else pv r k)"
proof (cases "s \<le> n")
  case False
  then show ?thesis by (auto simp: LoopPivot_def for_loop_done fun_eq_iff)
next
  case True
  let ?F = "\<lambda>x. (\<lambda>r k. if inb NCU r \<and> s \<le> k \<and> k < x then A (s mod NCU) (s div NCU) k else pv r k)"
  have "\<exists>p'. for_loop s n (\<lambda>k. for_loop 0 NCU (LoopPivot_lane NCU NRCU NCMAX A s k)) pv = Inr p' \<and> p' = ?F n"
  proof (rule for_loop_total[where P = "\<lambda>x p. p = ?F x"])
    show "s \<le> n" by fact
    show "pv = ?F s" by (auto simp: fun_eq_iff)
  next
    fix k p
    assume k: "s \<le> k" "k < n" and p: "p = ?F k"
    have kb: "inb NCMAX k" using k assms by (simp add: inb_def)
    have "(\<lambda>r k'. if inb NCU r \<and> k' = k then A (s mod NCU) (s div NCU) k else p r k') = ?F (k + 1)"
      unfolding p using k by (auto simp: fun_eq_iff)
    then show "\<exists>p'. for_loop 0 NCU (LoopPivot_lane NCU NRCU NCMAX A s k) p = Inr p' \<and> p' = ?F (k + 1)"
      by (simp add: LoopPivot_lanes_closed[OF assms(1-3) kb])
  qed
  then show ?thesis by (simp add: LoopPivot_def)
qed

lemma u32_id: "0 \<le> x \<Longrightarrow> x < 2 ^ 32 \<Longrightarrow> u32 x = x"
  by (simp add: u32_def)

lemma s32_id: "0 \<le> x \<Longrightarrow> x < 2 ^ 31 \<Longrightarrow> s32 x = x"
  by (simp add: s32_def)

lemma cell_index_unique:
  fixes ncols :: int
  assumes "0 \<le> b" "b < ncols"
  shows "a * ncols + b = i \<longleftrightarrow> a = i div ncols \<and> b = i mod ncols"
  using assms by (auto simp: div_pos_pos_trivial)

lemma div_less_nrows:
  fixes ncols :: int
  assumes "0 < ncols" "i < nrows * ncols"
  shows "i div ncols < nrows"
  using div_less_rows[of ncols i nrows] assms by (simp add: mult.commute)

lemma rowUpdate_closed:
  fixes A :: "'a::field lane"
  assumes "inb NCMAX cs" "0 \<le> rs" "rs \<le> re + 1" "re < NRCU" "cs \<le> ce" "ce < NCMAX"
    and "NRCU < 2 ^ 31" "NCMAX < 2 ^ 31" "(re - rs + 1) * (ce - cs) < 2 ^ 31"
  shows "rowUpdate NRCU NCMAX A pivot rs re cs ce =
     Inr (\<lambda>r c. if rs \<le> r \<and> r \<le> re \<and> cs < c \<and> c \<le> ce
                  then A r c - A r cs * pivot c else A r c)"
proof -
  define nrows where "nrows = re - rs + 1"
  define ncols where "ncols = ce - cs"
  have nn: "0 \<le> nrows" "0 \<le> ncols" using assms by (auto simp: nrows_def ncols_def)
  have bound: "0 \<le> nrows * ncols" "nrows * ncols < 2 ^ 31"
    using nn assms(9) by (auto simp: nrows_def ncols_def)
  have cs0: "0 \<le> cs" "cs < 2 ^ 31" using assms(1,8) by (auto simp: inb_def)
  have rs0: "rs < 2 ^ 31" using assms by simp
  let ?F = "\<lambda>i. (\<lambda>r c. if rs \<le> r \<and> r \<le> re \<and> cs < c \<and> c \<le> ce \<and> (r - rs) * ncols + (c - cs - 1) < i
                  then A r c - A r cs * pivot c else A r c)"
  have "\<exists>A'. for_loop 0 (nrows * ncols) (LoopMulSub_body NRCU NCMAX pivot rs cs ncols) A = Inr A'
          \<and> A' = ?F (nrows * ncols)"
  proof (rule for_loop_total[where P = "\<lambda>i B. B = ?F i"])
    show "0 \<le> nrows * ncols" by fact
    show "A = ?F 0"
    proof (intro ext)
      fix r c
      have "0 \<le> (r - rs) * ncols + (c - cs - 1)" if "rs \<le> r" "cs < c"
        using that nn by simp
      then show "A r c = ?F 0 r c" by auto
    qed
  next
    fix i B
    assume i: "0 \<le> i" "i < nrows * ncols" and B: "B = ?F i"
    have nc: "0 < ncols" using i nn by (cases "ncols = 0") auto
    define r0 where "r0 = i div ncols + rs"
    define c0 where "c0 = i mod ncols + cs + 1"
    have r0b: "rs \<le> r0" "r0 \<le> re"
      using div_less_nrows[OF nc i(2)] i(1) nc by (auto simp: r0_def nrows_def pos_imp_zdiv_nonneg_iff)
    have c0b: "cs < c0" "c0 \<le> ce"
    proof -
      have "0 \<le> i mod ncols" "i mod ncols < ncols"
        using pos_mod_bound[OF nc, of i] pos_mod_sign[OF nc, of i] by auto
      moreover have "cs + ncols = ce" by (simp add: ncols_def)
      ultimately show "cs < c0" "c0 \<le> ce" unfolding c0_def by linarith+
    qed
    have idx0: "(r0 - rs) * ncols + (c0 - cs - 1) = i" by (simp add: r0_def c0_def)
    have conv: "s32 (u32 i div u32 ncols + u32 rs) = r0" "s32 (u32 i mod u32 ncols + u32 cs + 1) = c0"
    proof -
      have ui: "u32 i = i" using i bound by (intro u32_id) auto
      have un: "u32 ncols = ncols" using nc assms(5,6,8) cs0 by (intro u32_id) (auto simp: ncols_def)
      have ur: "u32 rs = rs" using assms(2) rs0 by (intro u32_id) auto
      have uc: "u32 cs = cs" using cs0 by (intro u32_id) auto
      have "r0 < 2 ^ 31" using r0b assms by simp
      moreover have "0 \<le> r0" using r0b assms by simp
      ultimately show "s32 (u32 i div u32 ncols + u32 rs) = r0"
        by (simp add: ui un ur r0_def s32_id)
      have "c0 < 2 ^ 31" "0 \<le> c0" using c0b assms cs0 by auto
      then show "s32 (u32 i mod u32 ncols + u32 cs + 1) = c0"
        by (simp add: ui un uc c0_def s32_id)
    qed
    have inb0: "inb NRCU r0" "inb NCMAX c0"
      using r0b c0b assms cs0 by (auto simp: inb_def)
    have Br0: "B r0 c0 = A r0 c0" "B r0 cs = A r0 cs"
      unfolding B using idx0 by auto
    have upd: "B(r0 := (B r0)(c0 := B r0 c0 - B r0 cs * pivot c0)) = ?F (i + 1)"
    proof (intro ext)
      fix r c
      have lt: "(r - rs) * ncols + (c - cs - 1) < i + 1 \<longleftrightarrow>
                (r - rs) * ncols + (c - cs - 1) < i \<or> (r - rs) * ncols + (c - cs - 1) = i" by auto
      have u: "(r - rs) * ncols + (c - cs - 1) = i \<longleftrightarrow> r = r0 \<and> c = c0" if "cs < c" "c \<le> ce"
      proof -
        have "0 \<le> c - cs - 1" "c - cs - 1 < ncols" using that by (auto simp: ncols_def)
        from cell_index_unique[OF this, of "r - rs" i] show ?thesis
          by (auto simp: r0_def c0_def)
      qed
      show "(B(r0 := (B r0)(c0 := B r0 c0 - B r0 cs * pivot c0))) r c = ?F (i + 1) r c"
      proof (cases "r = r0 \<and> c = c0")
        case True
        then show ?thesis using r0b c0b idx0 Br0 by simp
      next
        case False
        then have "(B(r0 := (B r0)(c0 := B r0 c0 - B r0 cs * pivot c0))) r c = B r c" by auto
        also have "\<dots> = ?F (i + 1) r c"
          unfolding B lt using u False by auto
        finally show ?thesis .
      qed
    qed
    show "\<exists>B'. LoopMulSub_body NRCU NCMAX pivot rs cs ncols i B = Inr B' \<and> B' = ?F (i + 1)"
      using inb0 assms(1) upd by (simp add: LoopMulSub_body_def conv)
  qed
  moreover have "?F (nrows * ncols) = (\<lambda>r c. if rs \<le> r \<and> r \<le> re \<and> cs < c \<and> c \<le> ce
                  then A r c - A r cs * pivot c else A r c)"
  proof (intro ext)
    fix r c
    have "(r - rs) * ncols + (c - cs - 1) < nrows * ncols" if "rs \<le> r" "r \<le> re" "cs < c" "c \<le> ce"
    proof -
      have "(r - rs) * ncols + (c - cs - 1) < (r - rs) * ncols + ncols"
        using that by (simp add: ncols_def)
      also have "\<dots> = (r - rs + 1) * ncols" by (simp add: algebra_simps)
      also have "\<dots> \<le> nrows * ncols"
        using that nn by (intro mult_right_mono) (auto simp: nrows_def)
      finally show ?thesis .
    qed
    then show "?F (nrows * ncols) r c = (if rs \<le> r \<and> r \<le> re \<and> cs < c \<and> c \<le> ce
                  then A r c - A r cs * pivot c else A r c)" by auto
  qed
  moreover have "u32 (nrows * ncols) = nrows * ncols"
    using bound by (intro u32_id) auto
  ultimately show ?thesis
    using assms(1) by (simp add: rowUpdate_def Let_def nrows_def[symmetric] ncols_def[symmetric])
qed

lemma lane_start_offset:
  fixes NCU :: int
  assumes "0 < NCU" "0 \<le> s" "inb NCU i"
  shows "(if i \<le> s mod NCU then s div NCU + 1 else s div NCU) \<le> r \<longleftrightarrow> s < r * NCU + i"
proof -
  define q where "q = s div NCU"
  define t where "t = s mod NCU"
  have s: "s = q * NCU + t" by (simp add: q_def t_def)
  have t: "0 \<le> t" "t < NCU" using assms(1) by (auto simp: t_def)
  have i: "0 \<le> i" "i < NCU" using assms(3) by (auto simp: inb_def)
  have up: "(q + 1) * NCU \<le> r * NCU" if "q + 1 \<le> r" for r
    using that assms(1) by (intro mult_right_mono) auto
  have dn: "r * NCU \<le> q * NCU" if "r \<le> q" for r
    using that assms(1) by (intro mult_right_mono) auto
  have dn1: "r * NCU \<le> (q - 1) * NCU" if "r \<le> q - 1" for r
    using that assms(1) by (intro mult_right_mono) auto
  have e1: "(q + 1) * NCU = q * NCU + NCU" "(q - 1) * NCU = q * NCU - NCU"
    by (simp_all add: algebra_simps)
  show ?thesis
  proof (cases "i \<le> t")
    case True
    have "q + 1 \<le> r \<longleftrightarrow> s < r * NCU + i"
    proof
      assume "q + 1 \<le> r"
      from up[OF this] have "q * NCU + NCU \<le> r * NCU" by (simp only: e1)
      moreover have "s < q * NCU + NCU" using s t(2) by simp
      ultimately show "s < r * NCU + i" using i(1) by simp
    next
      assume a: "s < r * NCU + i"
      show "q + 1 \<le> r"
      proof (rule ccontr)
        assume "\<not> q + 1 \<le> r"
        then have "r \<le> q" by simp
        from dn[OF this] have "r * NCU + i \<le> q * NCU + t" using True by simp
        with a s show False by simp
      qed
    qed
    with True show ?thesis by (simp add: q_def t_def)
  next
    case False
    have "q \<le> r \<longleftrightarrow> s < r * NCU + i"
    proof
      assume "q \<le> r"
      then have "q * NCU \<le> r * NCU" using assms(1) by (intro mult_right_mono) auto
      moreover have "s < q * NCU + i" using s False by simp
      ultimately show "s < r * NCU + i" by simp
    next
      assume a: "s < r * NCU + i"
      show "q \<le> r"
      proof (rule ccontr)
        assume "\<not> q \<le> r"
        then have "r \<le> q - 1" by simp
        from dn1[OF this] have "r * NCU \<le> q * NCU - NCU" by (simp only: e1)
        moreover have "s < r * NCU + NCU" using a i(2) by simp
        moreover have "q * NCU \<le> s" using s t(1) by simp
        ultimately show False by simp
      qed
    qed
    with False show ?thesis by (simp add: q_def t_def)
  qed
qed

lemma LoopMat_closed:
  fixes A :: "'a::field lanes"
  assumes "0 < NCU" "0 \<le> s" "inb NCMAX s" "s div NCU < NRCU"
    and "NRCU < 2 ^ 31" "NCMAX < 2 ^ 31" "NRCU * NCMAX < 2 ^ 31"
  shows "LoopMat NCU NRCU NCMAX s pv A =
     Inr (\<lambda>i r c. if inb NCU i \<and> r < NRCU \<and> s < r * NCU + i \<and> s < c \<and> c < NCMAX
                    then A i r c - A i r s * pv i c else A i r c)"
proof -
  let ?F = "\<lambda>x. (\<lambda>i r c. if 0 \<le> i \<and> i < x \<and> r < NRCU \<and> s < r * NCU + i \<and> s < c \<and> c < NCMAX
                    then A i r c - A i r s * pv i c else A i r c)"
  have "\<exists>A'. for_loop 0 NCU (LoopMat_body NCU NRCU NCMAX s pv) A = Inr A' \<and> A' = ?F NCU"
  proof (rule for_loop_total[where P = "\<lambda>x B. B = ?F x"])
    show "0 \<le> NCU" using assms by simp
    show "A = ?F 0" by (auto simp: fun_eq_iff)
  next
    fix i B
    assume i: "0 \<le> i" "i < NCU" and B: "B = ?F i"
    have ib: "inb NCU i" using i by (simp add: inb_def)
    define rs where "rs = (if i \<le> s mod NCU then s div NCU + 1 else s div NCU)"
    have own: "rs \<le> r \<longleftrightarrow> s < r * NCU + i" for r
      unfolding rs_def by (rule lane_start_offset[OF assms(1,2) ib])
    have q0: "0 \<le> s div NCU" using assms(1,2) by (simp add: pos_imp_zdiv_nonneg_iff)
    have rs0: "0 \<le> rs" "rs \<le> NRCU" using q0 assms(4) by (auto simp: rs_def)
    have s0: "s < NCMAX" using assms(3) by (simp add: inb_def)
    have sz: "(NRCU - 1 - rs + 1) * (NCMAX - 1 - s) < 2 ^ 31"
    proof -
      have "(NRCU - 1 - rs + 1) * (NCMAX - 1 - s) \<le> NRCU * NCMAX"
        using rs0 s0 assms(2) by (intro mult_mono) auto
      with assms(7) show ?thesis by simp
    qed
    have Bi: "B i = A i" unfolding B by (auto simp: fun_eq_iff)
    have ru: "rowUpdate NRCU NCMAX (B i) (pv i) rs (NRCU - 1) s (NCMAX - 1) =
       Inr (\<lambda>r c. if rs \<le> r \<and> r \<le> NRCU - 1 \<and> s < c \<and> c \<le> NCMAX - 1
                  then A i r c - A i r s * pv i c else A i r c)"
      unfolding Bi
      by (rule rowUpdate_closed[OF assms(3) rs0(1) _ _ _ _ assms(5,6) sz]) (use rs0 s0 in auto)
    have "B(i := (\<lambda>r c. if rs \<le> r \<and> r \<le> NRCU - 1 \<and> s < c \<and> c \<le> NCMAX - 1
                  then A i r c - A i r s * pv i c else A i r c)) = ?F (i + 1)"
      unfolding B using i own by (auto simp: fun_eq_iff)
    then show "\<exists>B'. LoopMat_body NCU NRCU NCMAX s pv i B = Inr B' \<and> B' = ?F (i + 1)"
      using ib ru by (simp add: LoopMat_body_def Let_def rs_def[symmetric])
  qed
  then show ?thesis by (simp add: LoopMat_def inb_def)
qed

lemma sweep_closed:
  fixes A :: "'a::field lanes"
  assumes "0 < NCU" "0 \<le> s" "s < m" "m \<le> NCU * NRCU" "n \<le> NCMAX" "inb NCMAX s"
    and "NRCU < 2 ^ 31" "NCMAX < 2 ^ 31" "NRCU * NCMAX < 2 ^ 31"
  shows "sweep NRCU NCMAX NCU pivot0 m n s A = Inr (sweep_post NRCU NCMAX NCU pivot0 m n s A)"
proof -
  have sr: "s div NCU < NRCU"
    using div_less_rows[of NCU s NRCU] assms by simp
  have 1: "LoopPivot NCU NRCU NCMAX A s n (pivot0 s) = Inr (LoopPivot_post NCU A s n (pivot0 s))"
    unfolding LoopPivot_post_def cell_def by (rule LoopPivot_closed[OF assms(1,2) sr assms(5)])
  have 2: "LoopDiv NCU NRCU NCMAX s m a00 A = Inr (LoopDiv_post NCU s m a00 A)" for a00
    unfolding LoopDiv_post_def by (rule LoopDiv_closed[OF assms(1,2,3,4,6)])
  have 3: "LoopMat NCU NRCU NCMAX s pv B = Inr (LoopMat_post NCU NRCU NCMAX s pv B)" for pv and B :: "'a lanes"
    unfolding LoopMat_post_def by (rule LoopMat_closed[OF assms(1,2,6) sr assms(7,8,9)])
  have "inb NCU 0" using assms(1) by (simp add: inb_def)
  then show ?thesis
    using assms(6) by (simp add: sweep_def sweep_post_def 1 2 3 Let_def)
qed

text \<open>The step on the logical view.\<close>

lemma sweep_post_cell:
  fixes A :: "'a::field lanes"
  assumes "0 < NCU" "0 \<le> s" "0 \<le> j"
  shows "cell NCU (sweep_post NRCU NCMAX NCU pivot0 m n s A) j c =
     (let pv = (\<lambda>k. if s \<le> k \<and> k < n then cell NCU A s k else pivot0 s (j mod NCU) k);
          a00 = (if s < n then cell NCU A s s else pivot0 s 0 s);
          l = (if s < j \<and> j < m then cell NCU A j s / a00 else cell NCU A j s)
      in if s < j \<and> j < NCU * NRCU \<and> s < c \<and> c < NCMAX then cell NCU A j c - l * pv c
         else if c = s \<and> s < j \<and> j < m then cell NCU A j s / a00
         else cell NCU A j c)"
proof -
  have ib: "inb NCU (j mod NCU)" "inb NCU 0" using assms(1) by (auto simp: inb_def)
  have rows: "j div NCU < NRCU \<longleftrightarrow> j < NCU * NRCU"
  proof
    assume "j div NCU < NRCU"
    then have "j div NCU + 1 \<le> NRCU" by simp
    then have "(j div NCU + 1) * NCU \<le> NRCU * NCU"
      using assms(1) by (intro mult_right_mono) auto
    moreover have "j < (j div NCU + 1) * NCU"
    proof -
      have "j = NCU * (j div NCU) + j mod NCU" by simp
      moreover have "j mod NCU < NCU" using assms(1) by simp
      ultimately have "j < NCU * (j div NCU) + NCU" by linarith
      then show ?thesis by (simp add: algebra_simps)
    qed
    ultimately show "j < NCU * NRCU" by (simp add: mult.commute)
  next
    assume "j < NCU * NRCU"
    then show "j div NCU < NRCU" by (rule div_less_rows[OF assms(1)])
  qed
  show ?thesis
    using ib rows
    by (simp add: sweep_post_def LoopMat_post_def LoopDiv_post_def LoopPivot_post_def cell_def Let_def)
qed

section \<open>Frozen rows and columns\<close>

lemma sweep_frozen:
  fixes A :: "'a::field lanes"
  assumes "0 < NCU" "0 \<le> s" "0 \<le> j" "j \<le> s \<or> c < s"
  shows "cell NCU (sweep_post NRCU NCMAX NCU pivot0 m n s A) j c = cell NCU A j c"
  using assms(4) by (auto simp: sweep_post_cell[OF assms(1-3)] Let_def)

text \<open>
  Frozen region, for steps inside the buffer: an elimination step \<open>s\<close> (pivot extraction,
  division and update together) leaves every entry \<open>A[j][c]\<close> with \<open>j \<le> s\<close> or \<open>c < s\<close> unchanged, and all the
  later steps together leave every entry with \<open>j \<le> s\<close> or \<open>c \<le> s\<close> unchanged: the pivot row
  and the multiplier column of step \<open>s\<close> are final once the step has run. The entries are
  those of the buffer, \<open>cell NCU A j c\<close> being row \<open>j\<close> of the matrix in its lane; the
  steps stay inside the buffer (\<open>m \<le> NCU * NRCU\<close>, \<open>n \<le> NCMAX\<close>, \<open>m - 1 \<le> NCMAX\<close>).
\<close>

theorem frozen_region:
  fixes A :: "'a::field lanes"
  assumes "0 < NCU" "0 \<le> s" "s < m - 1" "m \<le> NCU * NRCU" "n \<le> NCMAX" "m - 1 \<le> NCMAX"
    and "NRCU < 2 ^ 31" "NCMAX < 2 ^ 31" "NRCU * NCMAX < 2 ^ 31"
  shows "\<exists>A1 A2.
      sweep NRCU NCMAX NCU pivot0 m n s A = Inr A1 \<and>
      (\<forall>j c. 0 \<le> j \<and> (j \<le> s \<or> c < s) \<longrightarrow> cell NCU A1 j c = cell NCU A j c) \<and>
      for_loop (s + 1) (m - 1) (sweep NRCU NCMAX NCU pivot0 m n) A1 = Inr A2 \<and>
      (\<forall>j c. 0 \<le> j \<and> (j \<le> s \<or> c \<le> s) \<longrightarrow> cell NCU A2 j c = cell NCU A1 j c)"
proof -
  define A1 where "A1 = sweep_post NRCU NCMAX NCU pivot0 m n s A"
  have step: "sweep NRCU NCMAX NCU pivot0 m n x B = Inr (sweep_post NRCU NCMAX NCU pivot0 m n x B)"
    if "0 \<le> x" "x < m - 1" for x and B :: "'a lanes"
    by (rule sweep_closed[OF assms(1) that(1) _ assms(4,5) _ assms(7-9)])
       (use that assms(6) in \<open>auto simp: inb_def\<close>)
  have 1: "sweep NRCU NCMAX NCU pivot0 m n s A = Inr A1"
    unfolding A1_def by (rule step[OF assms(2,3)])
  have 2: "\<forall>j c. 0 \<le> j \<and> (j \<le> s \<or> c < s) \<longrightarrow> cell NCU A1 j c = cell NCU A j c"
    unfolding A1_def using sweep_frozen[OF assms(1,2)] by blast
  let ?P = "\<lambda>(x::int) B. \<forall>j c. 0 \<le> j \<and> (j \<le> s \<or> c \<le> s) \<longrightarrow> cell NCU B j c = cell NCU A1 j c"
  have "\<exists>A2. for_loop (s + 1) (m - 1) (sweep NRCU NCMAX NCU pivot0 m n) A1 = Inr A2 \<and> ?P (m - 1) A2"
  proof (rule for_loop_total[where P = ?P])
    show "s + 1 \<le> m - 1" using assms(3) by simp
    show "?P (s + 1) A1" by simp
  next
    fix x B
    assume x: "s + 1 \<le> x" "x < m - 1" and B: "?P x B"
    have x0: "0 \<le> x" using x assms(2) by simp
    have "?P (x + 1) (sweep_post NRCU NCMAX NCU pivot0 m n x B)"
    proof (intro allI impI)
      fix j c
      assume jc: "0 \<le> j \<and> (j \<le> s \<or> c \<le> s)"
      then have "j \<le> x \<or> c < x" using x by auto
      with jc have "cell NCU (sweep_post NRCU NCMAX NCU pivot0 m n x B) j c = cell NCU B j c"
        by (intro sweep_frozen[OF assms(1) x0]) auto
      with B jc show "cell NCU (sweep_post NRCU NCMAX NCU pivot0 m n x B) j c = cell NCU A1 j c"
        by simp
    qed
    with step[OF x0 x(2)]
    show "\<exists>B'. sweep NRCU NCMAX NCU pivot0 m n x B = Inr B' \<and> ?P (x + 1) B'" by blast
  qed
  with 1 2 show ?thesis by blast
qed

theorem frozen_region_witness:
  "\<exists>A1 A2.
      sweep 2 3 2 (\<lambda>_ _ _. 7) 3 3 0 (\<lambda>i r c. rat_of_int (1 + i + 2 * r + c * c)) = Inr A1 \<and>
      cell 2 A1 0 2 = cell 2 (\<lambda>i r c. rat_of_int (1 + i + 2 * r + c * c)) 0 2 \<and>
      for_loop (0 + 1) (3 - 1) (sweep 2 3 2 (\<lambda>_ _ _. 7) 3 3) A1 = Inr A2 \<and>
      cell 2 A2 2 0 = cell 2 A1 2 0"
proof -
  let ?A = "\<lambda>i r c. rat_of_int (1 + i + 2 * r + c * c)"
  have "(0::int) < 2" "(0::int) \<le> 0" "(0::int) < 3 - 1" "(3::int) \<le> 2 * 2" "(3::int) \<le> 3" "(3::int) - 1 \<le> 3"
    "(2::int) < 2 ^ 31" "(3::int) < 2 ^ 31" "(2::int) * 3 < 2 ^ 31"
    by simp_all
  from frozen_region[OF this, of "\<lambda>_ _ _. 7" ?A]
  obtain A1 A2 where
    1: "sweep 2 3 2 (\<lambda>_ _ _. 7) 3 3 0 ?A = Inr A1"
    and 2: "\<forall>j c. 0 \<le> j \<and> (j \<le> 0 \<or> c < 0) \<longrightarrow> cell 2 A1 j c = cell 2 ?A j c"
    and 3: "for_loop (0 + 1) (3 - 1) (sweep 2 3 2 (\<lambda>_ _ _. 7) 3 3) A1 = Inr A2"
    and 4: "\<forall>j c. 0 \<le> j \<and> (j \<le> 0 \<or> c \<le> 0) \<longrightarrow> cell 2 A2 j c = cell 2 A1 j c"
    by blast
  have a: "cell 2 A1 0 2 = cell 2 ?A 0 2" using 2[rule_format, of 0 2] by simp
  have b: "cell 2 A2 2 0 = cell 2 A1 2 0" using 4[rule_format, of 2 0] by simp
  from 1 a 3 b show ?thesis by blast
qed

section \<open>Division and update stages\<close>

lemma stage_results:
  fixes A :: "'a::field lanes"
  assumes "0 < NCU" "0 \<le> s" "s < m - 1" "m \<le> NCU * NRCU" "n \<le> NCMAX" "inb NCMAX s"
  shows "LoopPivot NCU NRCU NCMAX A s n pv0 = Inr (LoopPivot_post NCU A s n pv0)"
    and "LoopDiv NCU NRCU NCMAX s m a00 A = Inr (LoopDiv_post NCU s m a00 A)"
proof -
  have sr: "s div NCU < NRCU"
    using div_less_rows[of NCU s NRCU] assms by simp
  show "LoopPivot NCU NRCU NCMAX A s n pv0 = Inr (LoopPivot_post NCU A s n pv0)"
    unfolding LoopPivot_post_def cell_def by (rule LoopPivot_closed[OF assms(1,2) sr assms(5)])
  show "LoopDiv NCU NRCU NCMAX s m a00 A = Inr (LoopDiv_post NCU s m a00 A)"
    unfolding LoopDiv_post_def by (rule LoopDiv_closed[OF assms(1,2) _ assms(4,6)]) (use assms(3) in simp)
qed

lemma LoopDiv_post_cell:
  assumes "0 < NCU"
  shows "cell NCU (LoopDiv_post NCU s m a00 A) j c =
     (if s < j \<and> j < m \<and> c = s then cell NCU A j s / a00 else cell NCU A j c)"
  using assms by (auto simp: LoopDiv_post_def cell_def inb_def)

text \<open>
  C2, as amended: at an elimination step \<open>s\<close> with \<open>s < n\<close>, the divisor \<open>a00 = pivot[0][s]\<close> is
  the diagonal entry \<open>A[s][s]\<close> as it was before the division, \<open>LoopDiv\<close> replaces \<open>A[j][s]\<close>
  by \<open>A[j][s] / a00\<close> for every row \<open>j\<close> with \<open>s < j < m\<close>, and it changes no other entry.
\<close>

theorem division_stage:
  fixes A :: "'a::field lanes"
  assumes "0 < NCU" "0 \<le> s" "s < m - 1" "s < n" "m \<le> NCU * NRCU" "n \<le> NCMAX"
  shows "\<exists>pivot A1.
      LoopPivot NCU NRCU NCMAX A s n (pivot0 s) = Inr pivot \<and>
      pivot 0 s = cell NCU A s s \<and>
      LoopDiv NCU NRCU NCMAX s m (pivot 0 s) A = Inr A1 \<and>
      (\<forall>j c. cell NCU A1 j c =
         (if s < j \<and> j < m \<and> c = s then cell NCU A j s / cell NCU A s s else cell NCU A j c))"
proof -
  have ib: "inb NCMAX s" using assms by (simp add: inb_def)
  define pivot where "pivot = LoopPivot_post NCU A s n (pivot0 s)"
  have a00: "pivot 0 s = cell NCU A s s"
    using assms(1,4) by (simp add: pivot_def LoopPivot_post_def inb_def)
  have 1: "LoopPivot NCU NRCU NCMAX A s n (pivot0 s) = Inr pivot"
    unfolding pivot_def by (rule stage_results(1)[OF assms(1,2,3,5,6) ib])
  have 2: "LoopDiv NCU NRCU NCMAX s m (pivot 0 s) A = Inr (LoopDiv_post NCU s m (pivot 0 s) A)"
    by (rule stage_results(2)[OF assms(1,2,3,5,6) ib])
  show ?thesis
    using 1 2 a00 LoopDiv_post_cell[OF assms(1), of s m "cell NCU A s s" A] by auto
qed

theorem division_stage_witness:
  "\<exists>pivot A1.
      LoopPivot 2 2 3 (\<lambda>i r c. rat_of_int (1 + i + 2 * r + c * c)) 0 3 (\<lambda>_ _. 7) = Inr pivot \<and>
      pivot 0 0 = cell 2 (\<lambda>i r c. rat_of_int (1 + i + 2 * r + c * c)) 0 0 \<and>
      LoopDiv 2 2 3 0 3 (pivot 0 0) (\<lambda>i r c. rat_of_int (1 + i + 2 * r + c * c)) = Inr A1 \<and>
      cell 2 A1 2 0 = 3 \<and> cell 2 A1 2 1 = 4"
proof -
  have "(0::int) < 2" "(0::int) \<le> 0" "(0::int) < 3 - 1" "(0::int) < 3" "(3::int) \<le> 2 * 2" "(3::int) \<le> 3"
    by simp_all
  from division_stage[OF this, of "\<lambda>i r c. rat_of_int (1 + i + 2 * r + c * c)" "\<lambda>_ _ _. 7"]
  obtain pivot A1 where
    1: "LoopPivot 2 2 3 (\<lambda>i r c. rat_of_int (1 + i + 2 * r + c * c)) 0 3 (\<lambda>_ _. 7) = Inr pivot"
    and 2: "pivot 0 0 = cell 2 (\<lambda>i r c. rat_of_int (1 + i + 2 * r + c * c)) 0 0"
    and 3: "LoopDiv 2 2 3 0 3 (pivot 0 0) (\<lambda>i r c. rat_of_int (1 + i + 2 * r + c * c)) = Inr A1"
    and 4: "\<forall>j c. cell 2 A1 j c =
         (if 0 < j \<and> j < 3 \<and> c = 0
          then cell 2 (\<lambda>i r c. rat_of_int (1 + i + 2 * r + c * c)) j 0 /
               cell 2 (\<lambda>i r c. rat_of_int (1 + i + 2 * r + c * c)) 0 0
          else cell 2 (\<lambda>i r c. rat_of_int (1 + i + 2 * r + c * c)) j c)"
    by blast
  have "cell 2 A1 2 0 = 3" "cell 2 A1 2 1 = 4"
    by (simp_all add: 4[rule_format, of 2 0] 4[rule_format, of 2 1]) (simp_all add: cell_def)
  with 1 2 3 show ?thesis by blast
qed

text \<open>
  C2 as stated fails at a step \<open>s \<ge> n\<close> of a tall matrix (\<open>m = 3\<close>, \<open>n = 1\<close>, \<open>s = 1\<close>):
  \<open>LoopPivot\<close> copies nothing, the divisor is the uninitialised \<open>pivot[0][1]\<close> (here 7) and
  not the buffer entry \<open>A[1][1]\<close> (here 3), so \<open>A[2][1] = 6\<close> becomes \<open>6 / 7\<close> and not \<open>2\<close>.
\<close>

theorem division_stage_counterexample:
  "\<exists>B. sweep 3 2 1 (\<lambda>_ _ _. 7) 3 1 1
          (\<lambda>i r c. if r = 1 \<and> c = 1 then 3 else if r = 2 \<and> c = 1 then 6 else (0::rat)) = Inr B \<and>
       cell 1 B 2 1 = 6 / 7 \<and>
       cell 1 (\<lambda>i r c. if r = 1 \<and> c = 1 then 3 else if r = 2 \<and> c = 1 then 6 else (0::rat)) 2 1 /
       cell 1 (\<lambda>i r c. if r = 1 \<and> c = 1 then 3 else if r = 2 \<and> c = 1 then 6 else (0::rat)) 1 1 = 2 \<and>
       cell 1 B 2 1 \<noteq>
       cell 1 (\<lambda>i r c. if r = 1 \<and> c = 1 then 3 else if r = 2 \<and> c = 1 then 6 else (0::rat)) 2 1 /
       cell 1 (\<lambda>i r c. if r = 1 \<and> c = 1 then 3 else if r = 2 \<and> c = 1 then 6 else (0::rat)) 1 1"
proof -
  let ?A = "\<lambda>(i::int) (r::int) (c::int). if r = 1 \<and> c = 1 then 3 else if r = 2 \<and> c = 1 then 6 else (0::rat)"
  have "sweep 3 2 1 (\<lambda>_ _ _. 7) 3 1 1 ?A = Inr (sweep_post 3 2 1 (\<lambda>_ _ _. 7) 3 1 1 ?A)"
    by (rule sweep_closed) (simp_all add: inb_def)
  moreover have "cell 1 (sweep_post 3 2 1 (\<lambda>_ _ _. 7) 3 1 1 ?A) 2 1 = 6 / 7"
    by (subst sweep_post_cell) (simp_all add: cell_def)
  moreover have "cell 1 ?A 2 1 / cell 1 ?A 1 1 = 2"
    by (simp add: cell_def)
  ultimately show ?thesis by (intro exI[of _ "sweep_post 3 2 1 (\<lambda>_ _ _. 7) 3 1 1 ?A"]) simp
qed

text \<open>
  The update stage of a step \<open>s\<close> inside the buffer (\<open>s < NCMAX\<close>): the pivot vector of every
  lane is row \<open>s\<close> as it was before the division;
  lane \<open>i\<close> starts at local row \<open>s div NCU + 1\<close> when \<open>i \<le> s mod NCU\<close> and at \<open>s div NCU\<close>
  otherwise, which are exactly its rows \<open>r * NCU + i\<close> strictly below \<open>s\<close>; in those rows and
  the columns \<open>c > s\<close> the update is \<open>A[r][c] = A[r][c] - A[r][s] * pivot[c]\<close> (with the
  divided \<open>A[r][s]\<close>) and every other cell of the lane keeps its value; on the matrix
  (\<open>j < m\<close>, \<open>c < n\<close>) this is the rank-1 update with row \<open>s\<close>.
\<close>

theorem update_stage:
  fixes A :: "'a::field lanes"
  assumes "0 < NCU" "0 \<le> s" "s < m - 1" "m \<le> NCU * NRCU" "n \<le> NCMAX" "inb NCMAX s"
    and "NRCU < 2 ^ 31" "NCMAX < 2 ^ 31" "NRCU * NCMAX < 2 ^ 31"
  shows "\<exists>pivot A1 A2.
      LoopPivot NCU NRCU NCMAX A s n (pivot0 s) = Inr pivot \<and>
      LoopDiv NCU NRCU NCMAX s m (pivot 0 s) A = Inr A1 \<and>
      LoopMat NCU NRCU NCMAX s pivot A1 = Inr A2 \<and>
      (\<forall>i c. inb NCU i \<and> s \<le> c \<and> c < n \<longrightarrow> pivot i c = cell NCU A s c) \<and>
      (\<forall>i r. inb NCU i \<longrightarrow>
         ((if i \<le> s mod NCU then s div NCU + 1 else s div NCU) \<le> r \<longleftrightarrow> s < r * NCU + i)) \<and>
      (\<forall>i r c. inb NCU i \<and> inb NRCU r \<and> inb NCMAX c \<longrightarrow>
         A2 i r c =
           (if (if i \<le> s mod NCU then s div NCU + 1 else s div NCU) \<le> r \<and> s < c
            then A1 i r c - A1 i r s * pivot i c else A1 i r c)) \<and>
      (\<forall>j c. 0 \<le> j \<and> j < m \<and> 0 \<le> c \<and> c < n \<longrightarrow>
         cell NCU A2 j c =
           (if s < j \<and> s < c then cell NCU A1 j c - cell NCU A1 j s * cell NCU A s c
            else cell NCU A1 j c))"
proof -
  define pivot where "pivot = LoopPivot_post NCU A s n (pivot0 s)"
  define A1 where "A1 = LoopDiv_post NCU s m (pivot 0 s) A"
  define A2 where "A2 = LoopMat_post NCU NRCU NCMAX s pivot A1"
  have sr: "s div NCU < NRCU"
    using div_less_rows[of NCU s NRCU] assms by simp
  have 1: "LoopPivot NCU NRCU NCMAX A s n (pivot0 s) = Inr pivot"
    unfolding pivot_def by (rule stage_results(1)[OF assms(1-6)])
  have 2: "LoopDiv NCU NRCU NCMAX s m (pivot 0 s) A = Inr A1"
    unfolding A1_def by (rule stage_results(2)[OF assms(1-6)])
  have 3: "LoopMat NCU NRCU NCMAX s pivot A1 = Inr A2"
    unfolding A2_def LoopMat_post_def by (rule LoopMat_closed[OF assms(1,2,6) sr assms(7-9)])
  have 4: "\<forall>i c. inb NCU i \<and> s \<le> c \<and> c < n \<longrightarrow> pivot i c = cell NCU A s c"
    by (simp add: pivot_def LoopPivot_post_def)
  have own: "(if i \<le> s mod NCU then s div NCU + 1 else s div NCU) \<le> r \<longleftrightarrow> s < r * NCU + i"
    if "inb NCU i" for i r
    by (rule lane_start_offset[OF assms(1,2) that])
  have 6: "\<forall>i r c. inb NCU i \<and> inb NRCU r \<and> inb NCMAX c \<longrightarrow>
         A2 i r c =
           (if (if i \<le> s mod NCU then s div NCU + 1 else s div NCU) \<le> r \<and> s < c
            then A1 i r c - A1 i r s * pivot i c else A1 i r c)"
    using own by (auto simp: A2_def LoopMat_post_def inb_def)
  have 7: "cell NCU A2 j c =
           (if s < j \<and> s < c then cell NCU A1 j c - cell NCU A1 j s * cell NCU A s c
            else cell NCU A1 j c)"
    if "0 \<le> j" "j < m" "0 \<le> c" "c < n" for j c
  proof -
    have jb: "inb NCU (j mod NCU)" "j div NCU < NRCU"
      using assms(1,4) that div_less_rows[of NCU j NRCU] by (auto simp: inb_def)
    have "pivot (j mod NCU) c = cell NCU A s c" if "s < c"
      using 4 jb(1) that \<open>c < n\<close> by simp
    then show ?thesis
      using jb that assms(5) by (auto simp: A2_def LoopMat_post_def cell_def)
  qed
  from 1 2 3 4 own 6 7 show ?thesis by blast
qed

theorem update_stage_witness:
  "\<exists>pivot A1 A2.
      LoopPivot 2 2 3 (\<lambda>i r c. rat_of_int (1 + i + 2 * r + c * c)) 0 3 (\<lambda>_ _. 7) = Inr pivot \<and>
      LoopDiv 2 2 3 0 3 (pivot 0 0) (\<lambda>i r c. rat_of_int (1 + i + 2 * r + c * c)) = Inr A1 \<and>
      LoopMat 2 2 3 0 pivot A1 = Inr A2 \<and>
      pivot 1 2 = cell 2 (\<lambda>i r c. rat_of_int (1 + i + 2 * r + c * c)) 0 2 \<and>
      A2 1 0 2 = A1 1 0 2 - A1 1 0 0 * pivot 1 2 \<and>
      A2 0 0 2 = A1 0 0 2 \<and>
      cell 2 A2 2 1 = cell 2 A1 2 1 - cell 2 A1 2 0 * cell 2 (\<lambda>i r c. rat_of_int (1 + i + 2 * r + c * c)) 0 1"
proof -
  let ?A = "\<lambda>i r c. rat_of_int (1 + i + 2 * r + c * c)"
  have "(0::int) < 2" "(0::int) \<le> 0" "(0::int) < 3 - 1" "(3::int) \<le> 2 * 2" "(3::int) \<le> 3" "inb 3 0"
    "(2::int) < 2 ^ 31" "(3::int) < 2 ^ 31" "(2::int) * 3 < 2 ^ 31"
    by (simp_all add: inb_def)
  from update_stage[OF this, of ?A "\<lambda>_ _ _. 7"]
  obtain pivot A1 A2 where
    1: "LoopPivot 2 2 3 ?A 0 3 (\<lambda>_ _. 7) = Inr pivot"
    and 2: "LoopDiv 2 2 3 0 3 (pivot 0 0) ?A = Inr A1"
    and 3: "LoopMat 2 2 3 0 pivot A1 = Inr A2"
    and 4: "\<forall>i c. inb 2 i \<and> 0 \<le> c \<and> c < 3 \<longrightarrow> pivot i c = cell 2 ?A 0 c"
    and 6: "\<forall>i r c. inb 2 i \<and> inb 2 r \<and> inb 3 c \<longrightarrow>
         A2 i r c =
           (if (if i \<le> 0 mod 2 then 0 div 2 + 1 else 0 div 2) \<le> r \<and> 0 < c
            then A1 i r c - A1 i r 0 * pivot i c else A1 i r c)"
    and 7: "\<forall>j c. 0 \<le> j \<and> j < 3 \<and> 0 \<le> c \<and> c < 3 \<longrightarrow>
         cell 2 A2 j c =
           (if 0 < j \<and> 0 < c then cell 2 A1 j c - cell 2 A1 j 0 * cell 2 ?A 0 c
            else cell 2 A1 j c)"
    by blast
  have a: "pivot 1 2 = cell 2 ?A 0 2" using 4[rule_format, of 1 2] by (simp add: inb_def)
  have b: "A2 1 0 2 = A1 1 0 2 - A1 1 0 0 * pivot 1 2"
    using 6[rule_format, of 1 0 2] by (simp add: inb_def)
  have c: "A2 0 0 2 = A1 0 0 2"
    using 6[rule_format, of 0 0 2] by (simp add: inb_def)
  have d: "cell 2 A2 2 1 = cell 2 A1 2 1 - cell 2 A1 2 0 * cell 2 ?A 0 1"
    using 7[rule_format, of 2 1] by simp
  from 1 2 3 a b c d show ?thesis by blast
qed

section \<open>Loading and storing the matrix\<close>

lemma lane_of_row_inj:
  fixes NCU :: int
  assumes "0 < NCU"
  shows "j mod NCU = r mod NCU \<and> j div NCU = r div NCU \<longleftrightarrow> j = r"
  by (metis div_mult_mod_eq)

lemma cell_upd:
  assumes "0 < NCU"
  shows "cell NCU (M(r mod NCU := (M (r mod NCU))(r div NCU := (M (r mod NCU) (r div NCU))(c := v)))) j c' =
     (if j = r \<and> c' = c then v else cell NCU M j c')"
  using lane_of_row_inj[OF assms, of j r] by (auto simp: cell_def)

lemma LoopRead_body_ok:
  assumes "0 < NCU" "0 \<le> r" "r < m" "m \<le> NCU * NRCU" "0 \<le> c" "c < n" "n \<le> NCMAX"
  shows "LoopRead_body NCU NRCU NCMAX A lda r c matA =
     (if inb (int (length A)) (lda * r + c)
      then Inr (matA(r mod NCU := (matA (r mod NCU))(r div NCU := (matA (r mod NCU) (r div NCU))(c := A ! nat (lda * r + c)))))
      else Inl OutOfBounds)"
proof -
  have "inb NCU (r mod NCU)" using assms(1) by (rule inb_mod)
  moreover have "inb NRCU (r div NCU)"
    using div_less_rows[of NCU r NRCU] assms by (auto simp: inb_def pos_imp_zdiv_nonneg_iff)
  moreover have "inb NCMAX c" using assms by (simp add: inb_def)
  ultimately show ?thesis by (simp add: LoopRead_body_def)
qed

lemma LoopRead_closed:
  assumes "0 < NCU" "m \<le> NCU * NRCU" "n \<le> NCMAX" "ext_ok m n lda A"
  shows "\<exists>matA. LoopRead NCU NRCU NCMAX m n A lda matA0 = Inr matA \<and>
           (\<forall>j c. 0 \<le> j \<and> j < m \<and> 0 \<le> c \<and> c < n \<longrightarrow> cell NCU matA j c = A ! nat (lda * j + c))"
proof (cases "0 \<le> m")
  case False
  then show ?thesis by (auto simp: LoopRead_def for_loop_done)
next
  case m0: True
  let ?P = "\<lambda>x M. \<forall>j c. 0 \<le> j \<and> j < x \<and> 0 \<le> c \<and> c < n \<longrightarrow> cell NCU M j c = A ! nat (lda * j + c)"
  have "\<exists>matA. for_loop 0 m (\<lambda>r. for_loop 0 n (LoopRead_body NCU NRCU NCMAX A lda r)) matA0 = Inr matA \<and> ?P m matA"
  proof (rule for_loop_total[where P = ?P])
    show "0 \<le> m" by fact
    show "?P 0 matA0" by auto
  next
    fix r M
    assume r: "0 \<le> r" "r < m" and M: "?P r M"
    show "\<exists>M'. for_loop 0 n (LoopRead_body NCU NRCU NCMAX A lda r) M = Inr M' \<and> ?P (r + 1) M'"
    proof (cases "0 \<le> n")
      case False
      with M show ?thesis by (simp add: for_loop_done)
    next
      case n0: True
      let ?Q = "\<lambda>y M'. \<forall>j c. 0 \<le> j \<and> 0 \<le> c \<and> c < n \<and> (j < r \<or> (j = r \<and> c < y)) \<longrightarrow>
                    cell NCU M' j c = A ! nat (lda * j + c)"
      have "\<exists>M'. for_loop 0 n (LoopRead_body NCU NRCU NCMAX A lda r) M = Inr M' \<and> ?Q n M'"
      proof (rule for_loop_total[where P = ?Q])
        show "0 \<le> n" by fact
        show "?Q 0 M" using M by auto
      next
        fix c B
        assume c: "0 \<le> c" "c < n" and B: "?Q c B"
        have ok: "inb (int (length A)) (lda * r + c)"
          using assms(4) r c by (simp add: ext_ok_def)
        let ?B' = "B(r mod NCU := (B (r mod NCU))(r div NCU := (B (r mod NCU) (r div NCU))(c := A ! nat (lda * r + c))))"
        have "?Q (c + 1) ?B'"
          using B by (auto simp: cell_upd[OF assms(1)])
        then show "\<exists>B'. LoopRead_body NCU NRCU NCMAX A lda r c B = Inr B' \<and> ?Q (c + 1) B'"
          using ok by (simp add: LoopRead_body_ok[OF assms(1) r assms(2) c assms(3)])
      qed
      then obtain M' where run: "for_loop 0 n (LoopRead_body NCU NRCU NCMAX A lda r) M = Inr M'"
        and Q: "?Q n M'" by blast
      have "?P (r + 1) M'"
      proof (intro allI impI)
        fix j c assume "0 \<le> j \<and> j < r + 1 \<and> 0 \<le> c \<and> c < n"
        then have "0 \<le> j \<and> 0 \<le> c \<and> c < n \<and> (j < r \<or> (j = r \<and> c < n))" by auto
        with Q show "cell NCU M' j c = A ! nat (lda * j + c)" by blast
      qed
      with run show ?thesis by blast
    qed
  qed
  then show ?thesis by (simp add: LoopRead_def)
qed

lemma NRCU_covers:
  fixes NCU :: int
  assumes "0 < NCU"
  shows "NRMAX \<le> NCU * ((NRMAX + NCU - 1) div NCU)"
proof -
  have "NCU * ((NRMAX + NCU - 1) div NCU) = (NRMAX + NCU - 1) - (NRMAX + NCU - 1) mod NCU"
    by (simp add: minus_mod_eq_mult_div)
  moreover have "(NRMAX + NCU - 1) mod NCU \<le> NCU - 1"
    using pos_mod_bound[OF assms, of "NRMAX + NCU - 1"] by simp
  ultimately show ?thesis by linarith
qed

lemma NRCU_le:
  fixes NCU :: int
  assumes "0 < NCU" "0 < NRMAX"
  shows "(NRMAX + NCU - 1) div NCU \<le> NRMAX" "0 < (NRMAX + NCU - 1) div NCU"
proof -
  have "0 \<le> (NRMAX - 1) * (NCU - 1)" using assms by simp
  then have "NRMAX + NCU - 1 \<le> NRMAX * NCU" by (simp add: algebra_simps)
  then have "(NRMAX + NCU - 1) div NCU \<le> (NRMAX * NCU) div NCU" by (rule zdiv_mono1) fact
  then show "(NRMAX + NCU - 1) div NCU \<le> NRMAX" using assms by simp
  have "NCU \<le> NRMAX + NCU - 1" using assms by simp
  then have "NCU div NCU \<le> (NRMAX + NCU - 1) div NCU" by (rule zdiv_mono1) fact
  then show "0 < (NRMAX + NCU - 1) div NCU" using assms by simp
qed

lemma LoopWrite_body_ok:
  assumes "0 < NCU" "0 \<le> r" "r < m" "m \<le> NCU * NRCU" "0 \<le> c" "c < n" "n \<le> NCMAX"
  shows "LoopWrite_body NCU NRCU NCMAX matA lda r c B =
     (if inb (int (length B)) (r * lda + c)
      then Inr (B[nat (r * lda + c) := cell NCU matA r c])
      else Inl OutOfBounds)"
proof -
  have "inb NCU (r mod NCU)" using assms(1) by (rule inb_mod)
  moreover have "inb NRCU (r div NCU)"
    using div_less_rows[of NCU r NRCU] assms by (auto simp: inb_def pos_imp_zdiv_nonneg_iff)
  moreover have "inb NCMAX c" using assms by (simp add: inb_def)
  ultimately show ?thesis by (simp add: LoopWrite_body_def cell_def)
qed

text \<open>Writing back what was read leaves the buffer as it is.\<close>

lemma LoopWrite_same:
  assumes "0 < NCU" "m \<le> NCU * NRCU" "n \<le> NCMAX" "ext_ok m n lda A"
    and "\<forall>j c. 0 \<le> j \<and> j < m \<and> 0 \<le> c \<and> c < n \<longrightarrow> cell NCU matA j c = A ! nat (lda * j + c)"
  shows "LoopWrite NCU NRCU NCMAX m n matA lda A = Inr A"
proof (cases "0 \<le> m")
  case False
  then show ?thesis by (simp add: LoopWrite_def for_loop_done)
next
  case True
  have "\<exists>A'. for_loop 0 m (\<lambda>r. for_loop 0 n (LoopWrite_body NCU NRCU NCMAX matA lda r)) A = Inr A' \<and> A' = A"
  proof (rule for_loop_total[where P = "\<lambda>_ B. B = A"])
    show "0 \<le> m" by fact
    show "A = A" ..
  next
    fix r B
    assume r: "0 \<le> r" "r < m" and B: "B = A"
    show "\<exists>B'. for_loop 0 n (LoopWrite_body NCU NRCU NCMAX matA lda r) B = Inr B' \<and> B' = A"
    proof (cases "0 \<le> n")
      case False
      with B show ?thesis by (simp add: for_loop_done)
    next
      case True
      show ?thesis
      proof (rule for_loop_total[where P = "\<lambda>_ B. B = A"])
        show "0 \<le> n" by fact
        show "B = A" by fact
      next
        fix c B
        assume c: "0 \<le> c" "c < n" and B: "B = (A :: 'a list)"
        have comm: "r * lda + c = lda * r + c" by simp
        have ok: "inb (int (length A)) (r * lda + c)"
          unfolding comm using assms(4) r c by (simp add: ext_ok_def)
        have "cell NCU matA r c = A ! nat (r * lda + c)"
          unfolding comm using assms(5) r c by simp
        then show "\<exists>B'. LoopWrite_body NCU NRCU NCMAX matA lda r c B = Inr B' \<and> B' = A"
          using ok B by (simp add: LoopWrite_body_ok[OF assms(1) r assms(2) c assms(3)])
      qed
    qed
  qed
  then show ?thesis by (simp add: LoopWrite_def)
qed

text \<open>
  C7: with \<open>m = 1\<close> the core runs no elimination step and returns the internal buffer as it
  is, and \<open>getrf_nopivot\<close> returns the external buffer unchanged (so the returned
  \<open>A[0 * lda + c]\<close> is the original one for every column \<open>c < n\<close>), for every row of at most
  \<open>NCMAX\<close> columns that the external buffer holds.
\<close>

theorem getrf_nopivot_one_row:
  assumes "0 < NCU" "1 \<le> NRMAX" "n \<le> NCMAX" "n \<le> int (length A)"
  shows "getrf_nopivot_core NRCU NCMAX NCU pivot0 1 n matA lda = Inr matA \<and>
         getrf_nopivot NRMAX NCMAX NCU matA0 pivot0 1 n A lda info = Inr (A, info)"
proof -
  define NRCU' where "NRCU' = (NRMAX + NCU - 1) div NCU"
  have cap: "1 \<le> NCU * NRCU'"
    using NRCU_covers[OF assms(1), of NRMAX] assms(2) by (simp add: NRCU'_def)
  have ok: "ext_ok 1 n lda A"
    unfolding ext_ok_def
  proof (intro allI impI)
    fix r c :: int
    assume "0 \<le> r \<and> r < 1 \<and> 0 \<le> c \<and> c < n"
    then have "r = 0" "0 \<le> c" "c < n" by auto
    with assms(4) show "inb (int (length A)) (lda * r + c)" by (simp add: inb_def)
  qed
  have core: "getrf_nopivot_core R NCMAX NCU pivot0 1 n M lda = Inr M" for R and M :: "'a lanes"
    by (simp add: getrf_nopivot_core_def for_loop_done)
  from LoopRead_closed[OF assms(1) cap assms(3) ok, of matA0]
  obtain M where rd: "LoopRead NCU NRCU' NCMAX 1 n A lda matA0 = Inr M"
    and M: "\<forall>j c. 0 \<le> j \<and> j < 1 \<and> 0 \<le> c \<and> c < n \<longrightarrow> cell NCU M j c = A ! nat (lda * j + c)"
    by blast
  have wr: "LoopWrite NCU NRCU' NCMAX 1 n M lda A = Inr A"
    by (rule LoopWrite_same[OF assms(1) cap assms(3) ok M])
  show ?thesis
    using rd wr core by (simp add: getrf_nopivot_def NRCU'_def[symmetric])
qed

theorem getrf_nopivot_one_row_witness:
  "getrf_nopivot_core 2 3 2 (\<lambda>_ _ _. 7) 1 3 (\<lambda>i r c. rat_of_int (i + r + c)) 3 = Inr (\<lambda>i r c. rat_of_int (i + r + c)) \<and>
   getrf_nopivot 3 3 2 (\<lambda>_ _ _. 9) (\<lambda>_ _ _. 7) 1 3 [4, 3, 2 :: rat] 3 0 = Inr ([4, 3, 2], 0)"
proof -
  have "(0::int) < 2" "(1::int) \<le> 3" "(3::int) \<le> 3" "(3::int) \<le> int (length [4, 3, 2 :: rat])"
    by simp_all
  from getrf_nopivot_one_row[OF this] show ?thesis by blast
qed

section \<open>Independence of the lane count and of uninitialised cells\<close>

lemma error_unique: "(e :: error) = OutOfBounds"
  by (cases e) simp

lemma for_loop_cong:
  assumes "\<And>i st. lo \<le> i \<Longrightarrow> i < hi \<Longrightarrow> body1 i st = body2 i st"
  shows "for_loop lo hi body1 st = for_loop lo hi body2 st"
  using assms
proof (induction lo hi body1 st rule: for_loop.induct)
  case (1 i hi body1 st)
  show ?case
  proof (cases "i < hi")
    case False
    then show ?thesis by (simp add: for_loop_done)
  next
    case True
    have b: "body2 i st = body1 i st" using "1.prems" True by simp
    show ?thesis
    proof (cases "body1 i st")
      case (Inl e)
      then show ?thesis using True by (simp add: for_loop_step b)
    next
      case (Inr s1)
      have "for_loop (i + 1) hi body1 s1 = for_loop (i + 1) hi body2 s1"
        by (rule "1.IH"[OF True Inr]) (use "1.prems" in auto)
      then show ?thesis using True Inr by (simp add: for_loop_step b)
    qed
  qed
qed

lemma sweep_region:
  fixes A :: "'a::field lanes"
  assumes "0 < NCU" "0 \<le> s" "m \<le> NCU * NRCU" "n \<le> NCMAX"
    and "0 \<le> j" "j < m" "0 \<le> c" "c < n"
  shows "cell NCU (sweep_post NRCU NCMAX NCU pivot0 m n s A) j c = elim_step s (cell NCU A) j c"
proof -
  have "j < NCU * NRCU" "c < NCMAX" using assms by auto
  then show ?thesis
    using assms(6,8) by (auto simp: sweep_post_cell[OF assms(1,2,5)] elim_step_def Let_def)
qed

lemma elim_step_agree:
  assumes "agree m n M M'" "0 \<le> s" "s < m"
  shows "agree m n (elim_step s M) (elim_step s M')"
  unfolding agree_def
proof (intro allI impI)
  fix j c
  assume jc: "0 \<le> j \<and> j < m \<and> 0 \<le> c \<and> c < n"
  have eq: "M j' c' = M' j' c'" if "0 \<le> j'" "j' < m" "0 \<le> c'" "c' < n" for j' c'
    using assms(1) that by (simp add: agree_def)
  show "elim_step s M j c = elim_step s M' j c"
  proof (cases "s < j \<and> s \<le> c")
    case True
    then have sn: "s < n" using jc by simp
    have "M j c = M' j c" "M j s = M' j s" "M s s = M' s s" "M s c = M' s c"
      using jc assms(2,3) sn by (auto intro: eq)
    then show ?thesis by (simp add: elim_step_def)
  next
    case False
    then show ?thesis using eq jc by (auto simp: elim_step_def)
  qed
qed

lemma sweep_oob:
  assumes "\<not> inb NCMAX s"
  shows "sweep NRCU NCMAX NCU pivot0 m n s A = Inl OutOfBounds"
  using assms by (auto simp: sweep_def error_unique split: sum.splits)

lemma LoopRead_Inr_ext_ok:
  assumes "0 < NCU" "m \<le> NCU * NRCU" "n \<le> NCMAX"
    and "LoopRead NCU NRCU NCMAX m n A lda matA0 = Inr M"
  shows "ext_ok m n lda A"
proof -
  let ?P = "\<lambda>x (B :: 'a lanes). \<forall>r c. 0 \<le> r \<and> r < x \<and> 0 \<le> c \<and> c < n \<longrightarrow> inb (int (length A)) (lda * r + c)"
  have "?P (max 0 m) M"
  proof (rule for_loop_partial[OF assms(4)[unfolded LoopRead_def], where P = ?P])
    show "?P 0 matA0" by auto
  next
    fix r B B'
    assume r: "0 \<le> r" "r < m" and P: "?P r B"
      and run: "for_loop 0 n (LoopRead_body NCU NRCU NCMAX A lda r) B = Inr B'"
    let ?Q = "\<lambda>y (B :: 'a lanes). \<forall>c. 0 \<le> c \<and> c < y \<longrightarrow> inb (int (length A)) (lda * r + c)"
    have "?Q (max 0 n) B'"
    proof (rule for_loop_partial[OF run, where P = ?Q])
      show "?Q 0 B" by auto
    next
      fix c C C'
      assume c: "0 \<le> c" "c < n" and Q: "?Q c C"
        and b: "LoopRead_body NCU NRCU NCMAX A lda r c C = Inr C'"
      from b have "inb (int (length A)) (lda * r + c)"
        by (simp add: LoopRead_body_ok[OF assms(1) r assms(2) c assms(3)] split: if_splits)
      with Q show "?Q (c + 1) C'" by (auto simp: less_le)
    qed
    then have Qn: "inb (int (length A)) (lda * r + c)" if "0 \<le> c" "c < n" for c
      using that by (simp add: max_def split: if_splits)
    show "?P (r + 1) B'"
    proof (intro allI impI)
      fix r' c
      assume a: "0 \<le> r' \<and> r' < r + 1 \<and> 0 \<le> c \<and> c < n"
      show "inb (int (length A)) (lda * r' + c)"
      proof (cases "r' = r")
        case True
        with a Qn show ?thesis by simp
      next
        case False
        with a have "0 \<le> r' \<and> r' < r \<and> 0 \<le> c \<and> c < n" by simp
        with P show ?thesis by blast
      qed
    qed
  qed
  then show ?thesis by (auto simp: ext_ok_def max_def split: if_splits)
qed

lemma LoopWrite_agree:
  assumes "0 < NCU1" "m \<le> NCU1 * NRCU1" "0 < NCU2" "m \<le> NCU2 * NRCU2" "n \<le> NCMAX"
    and "agree m n (cell NCU1 a) (cell NCU2 b)"
  shows "LoopWrite NCU1 NRCU1 NCMAX m n a lda A = LoopWrite NCU2 NRCU2 NCMAX m n b lda A"
  unfolding LoopWrite_def
proof (rule for_loop_cong)
  fix r B
  assume r: "0 \<le> r" "r < m"
  show "for_loop 0 n (LoopWrite_body NCU1 NRCU1 NCMAX a lda r) B =
        for_loop 0 n (LoopWrite_body NCU2 NRCU2 NCMAX b lda r) B"
  proof (rule for_loop_cong)
    fix c C
    assume c: "0 \<le> c" "c < n"
    have "cell NCU1 a r c = cell NCU2 b r c"
      using assms(6) r c by (simp add: agree_def)
    then show "LoopWrite_body NCU1 NRCU1 NCMAX a lda r c C = LoopWrite_body NCU2 NRCU2 NCMAX b lda r c C"
      by (simp add: LoopWrite_body_ok[OF assms(1) r assms(2) c assms(5)]
                    LoopWrite_body_ok[OF assms(3) r assms(4) c assms(5)])
  qed
qed

lemma core_rel:
  fixes a b :: "'a::field lanes"
  assumes "0 < NCU1" "m \<le> NCU1 * NRCU1" "NRCU1 < 2 ^ 31" "NRCU1 * NCMAX < 2 ^ 31"
    and "0 < NCU2" "m \<le> NCU2 * NRCU2" "NRCU2 < 2 ^ 31" "NRCU2 * NCMAX < 2 ^ 31"
    and "n \<le> NCMAX" "NCMAX < 2 ^ 31"
    and "agree m n (cell NCU1 a) (cell NCU2 b)"
  shows "(getrf_nopivot_core NRCU1 NCMAX NCU1 pivot1 m n a lda = Inl OutOfBounds \<and>
          getrf_nopivot_core NRCU2 NCMAX NCU2 pivot2 m n b lda = Inl OutOfBounds) \<or>
         (\<exists>a' b'. getrf_nopivot_core NRCU1 NCMAX NCU1 pivot1 m n a lda = Inr a' \<and>
                  getrf_nopivot_core NRCU2 NCMAX NCU2 pivot2 m n b lda = Inr b' \<and>
                  agree m n (cell NCU1 a') (cell NCU2 b'))"
proof -
  let ?R = "\<lambda>(x::int) a b. agree m n (cell NCU1 a) (cell NCU2 b)"
  have "(\<exists>e. for_loop 0 (m - 1) (sweep NRCU1 NCMAX NCU1 pivot1 m n) a = Inl e \<and>
             for_loop 0 (m - 1) (sweep NRCU2 NCMAX NCU2 pivot2 m n) b = Inl e) \<or>
        (\<exists>a' b'. for_loop 0 (m - 1) (sweep NRCU1 NCMAX NCU1 pivot1 m n) a = Inr a' \<and>
                 for_loop 0 (m - 1) (sweep NRCU2 NCMAX NCU2 pivot2 m n) b = Inr b' \<and>
                 ?R (max 0 (m - 1)) a' b')"
  proof (rule for_loop_rel[where R = ?R])
    show "?R 0 a b" by fact
  next
    fix s and x y :: "'a lanes"
    assume s: "0 \<le> s" "s < m - 1" and R: "?R s x y"
    show "(\<exists>e. sweep NRCU1 NCMAX NCU1 pivot1 m n s x = Inl e \<and> sweep NRCU2 NCMAX NCU2 pivot2 m n s y = Inl e) \<or>
          (\<exists>a' b'. sweep NRCU1 NCMAX NCU1 pivot1 m n s x = Inr a' \<and>
                   sweep NRCU2 NCMAX NCU2 pivot2 m n s y = Inr b' \<and> ?R (s + 1) a' b')"
    proof (cases "inb NCMAX s")
      case False
      then show ?thesis by (simp add: sweep_oob)
    next
      case True
      have sm: "s < m" using s by simp
      have 1: "sweep NRCU1 NCMAX NCU1 pivot1 m n s x = Inr (sweep_post NRCU1 NCMAX NCU1 pivot1 m n s x)"
        by (rule sweep_closed[OF assms(1) s(1) sm assms(2,9) True assms(3,10,4)])
      have 2: "sweep NRCU2 NCMAX NCU2 pivot2 m n s y = Inr (sweep_post NRCU2 NCMAX NCU2 pivot2 m n s y)"
        by (rule sweep_closed[OF assms(5) s(1) sm assms(6,9) True assms(7,10,8)])
      have "agree m n (elim_step s (cell NCU1 x)) (elim_step s (cell NCU2 y))"
        by (rule elim_step_agree[OF R s(1) sm])
      then have "?R (s + 1) (sweep_post NRCU1 NCMAX NCU1 pivot1 m n s x)
                             (sweep_post NRCU2 NCMAX NCU2 pivot2 m n s y)"
        unfolding agree_def
        by (simp add: sweep_region[OF assms(1) s(1) assms(2,9)] sweep_region[OF assms(5) s(1) assms(6,9)])
      with 1 2 show ?thesis by simp
    qed
  qed
  then show ?thesis
    unfolding getrf_nopivot_core_def using error_unique by metis
qed

lemma core_returns:
  fixes a :: "'a::field lanes"
  assumes "0 < NCU" "m \<le> NCU * NRCU" "NRCU < 2 ^ 31" "NRCU * NCMAX < 2 ^ 31"
    and "n \<le> NCMAX" "NCMAX < 2 ^ 31" "m - 1 \<le> NCMAX"
  shows "\<exists>a'. getrf_nopivot_core NRCU NCMAX NCU pivot0 m n a lda = Inr a'"
proof (cases "0 \<le> m - 1")
  case False
  then show ?thesis by (simp add: getrf_nopivot_core_def for_loop_done)
next
  case True
  have "\<exists>a'. for_loop 0 (m - 1) (sweep NRCU NCMAX NCU pivot0 m n) a = Inr a' \<and> True"
  proof (rule for_loop_total[where P = "\<lambda>_ _. True"])
    show "0 \<le> m - 1" by fact
    show True ..
  next
    fix s and x :: "'a lanes"
    assume s: "0 \<le> s" "s < m - 1"
    have "sweep NRCU NCMAX NCU pivot0 m n s x = Inr (sweep_post NRCU NCMAX NCU pivot0 m n s x)"
      by (rule sweep_closed[OF assms(1) s(1) _ assms(2,5) _ assms(3,6,4)])
         (use s assms(7) in \<open>auto simp: inb_def\<close>)
    then show "\<exists>x'. sweep NRCU NCMAX NCU pivot0 m n s x = Inr x' \<and> True" by simp
  qed
  then show ?thesis by (simp add: getrf_nopivot_core_def)
qed

lemma template_bounds:
  fixes NCU :: int
  assumes "0 < NCU" "0 < NRMAX" "0 < NCMAX" "NRMAX * NCMAX < 2 ^ 31" "m \<le> NRMAX"
  defines "NRCU \<equiv> (NRMAX + NCU - 1) div NCU"
  shows "m \<le> NCU * NRCU" "NRCU < 2 ^ 31" "NRCU * NCMAX < 2 ^ 31" "NCMAX < 2 ^ 31"
proof -
  have le: "NRCU \<le> NRMAX" "0 < NRCU"
    unfolding NRCU_def by (rule NRCU_le[OF assms(1,2)])+
  show "m \<le> NCU * NRCU"
    unfolding NRCU_def using NRCU_covers[OF assms(1), of NRMAX] assms(5) by simp
  have "NRCU * NCMAX \<le> NRMAX * NCMAX"
    using le assms(3) by (intro mult_right_mono) auto
  with assms(4) show b: "NRCU * NCMAX < 2 ^ 31" by simp
  have "NRCU * 1 \<le> NRCU * NCMAX" using le assms(3) by (intro mult_left_mono) auto
  with b show "NRCU < 2 ^ 31" by simp
  have "1 * NCMAX \<le> NRCU * NCMAX" using le assms(3) by (intro mult_right_mono) auto
  with b show "NCMAX < 2 ^ 31" by simp
qed

lemma getrf_nopivot_indep:
  fixes A :: "'a::field list"
  assumes "0 < NCU1" "0 < NCU2" "0 < NRMAX" "0 < NCMAX" "NRMAX * NCMAX < 2 ^ 31"
    and "m \<le> NRMAX" "n \<le> NCMAX"
  shows "getrf_nopivot NRMAX NCMAX NCU1 matA1 pivot1 m n A lda info =
         getrf_nopivot NRMAX NCMAX NCU2 matA2 pivot2 m n A lda info"
proof -
  define R1 where "R1 = (NRMAX + NCU1 - 1) div NCU1"
  define R2 where "R2 = (NRMAX + NCU2 - 1) div NCU2"
  note b1 = template_bounds[OF assms(1,3,4,5,6), folded R1_def]
  note b2 = template_bounds[OF assms(2,3,4,5,6), folded R2_def]
  show ?thesis
  proof (cases "ext_ok m n lda A")
    case False
    have "LoopRead NCU1 R1 NCMAX m n A lda matA1 = Inl OutOfBounds"
      using LoopRead_Inr_ext_ok[OF assms(1) b1(1) assms(7)] False error_unique
      by (cases "LoopRead NCU1 R1 NCMAX m n A lda matA1") auto
    moreover have "LoopRead NCU2 R2 NCMAX m n A lda matA2 = Inl OutOfBounds"
      using LoopRead_Inr_ext_ok[OF assms(2) b2(1) assms(7)] False error_unique
      by (cases "LoopRead NCU2 R2 NCMAX m n A lda matA2") auto
    ultimately show ?thesis
      by (simp add: getrf_nopivot_def R1_def[symmetric] R2_def[symmetric])
  next
    case True
    from LoopRead_closed[OF assms(1) b1(1) assms(7) True, of matA1]
    obtain M1 where r1: "LoopRead NCU1 R1 NCMAX m n A lda matA1 = Inr M1"
      and M1: "\<forall>j c. 0 \<le> j \<and> j < m \<and> 0 \<le> c \<and> c < n \<longrightarrow> cell NCU1 M1 j c = A ! nat (lda * j + c)"
      by blast
    from LoopRead_closed[OF assms(2) b2(1) assms(7) True, of matA2]
    obtain M2 where r2: "LoopRead NCU2 R2 NCMAX m n A lda matA2 = Inr M2"
      and M2: "\<forall>j c. 0 \<le> j \<and> j < m \<and> 0 \<le> c \<and> c < n \<longrightarrow> cell NCU2 M2 j c = A ! nat (lda * j + c)"
      by blast
    have ag: "agree m n (cell NCU1 M1) (cell NCU2 M2)"
      using M1 M2 by (simp add: agree_def)
    from core_rel[OF assms(1) b1(1,2,3) assms(2) b2(1,2,3) assms(7) b1(4) ag, of pivot1 lda pivot2]
    show ?thesis
    proof
      assume "getrf_nopivot_core R1 NCMAX NCU1 pivot1 m n M1 lda = Inl OutOfBounds \<and>
              getrf_nopivot_core R2 NCMAX NCU2 pivot2 m n M2 lda = Inl OutOfBounds"
      then show ?thesis
        using r1 r2 by (simp add: getrf_nopivot_def R1_def[symmetric] R2_def[symmetric])
    next
      assume "\<exists>a' b'. getrf_nopivot_core R1 NCMAX NCU1 pivot1 m n M1 lda = Inr a' \<and>
                getrf_nopivot_core R2 NCMAX NCU2 pivot2 m n M2 lda = Inr b' \<and>
                agree m n (cell NCU1 a') (cell NCU2 b')"
      then obtain a' b' where c1: "getrf_nopivot_core R1 NCMAX NCU1 pivot1 m n M1 lda = Inr a'"
        and c2: "getrf_nopivot_core R2 NCMAX NCU2 pivot2 m n M2 lda = Inr b'"
        and ag': "agree m n (cell NCU1 a') (cell NCU2 b')" by blast
      have "LoopWrite NCU1 R1 NCMAX m n a' lda A = LoopWrite NCU2 R2 NCMAX m n b' lda A"
        by (rule LoopWrite_agree[OF assms(1) b1(1) assms(2) b2(1) assms(7) ag'])
      then show ?thesis
        using r1 r2 c1 c2 by (simp add: getrf_nopivot_def R1_def[symmetric] R2_def[symmetric])
    qed
  qed
qed

lemma offset_inj:
  fixes lda :: int
  assumes "0 \<le> c" "c < n" "0 \<le> c'" "c' < n" "n \<le> lda" "lda * r + c = lda * r' + c'"
  shows "r = r' \<and> c = c'"
proof -
  have "r * lda + c = r' * lda + c'" using assms(6) by (simp add: mult.commute)
  moreover have "c < lda" "c' < lda" using assms by auto
  ultimately show ?thesis
    using cell_index_unique[OF assms(1) \<open>c < lda\<close>, of r "r' * lda + c'"]
          cell_index_unique[OF assms(3) \<open>c' < lda\<close>, of r' "r' * lda + c'"] by simp
qed

lemma LoopWrite_closed:
  assumes "0 < NCU" "m \<le> NCU * NRCU" "n \<le> NCMAX" "ext_ok m n lda A"
  shows "\<exists>A'. LoopWrite NCU NRCU NCMAX m n matA lda A = Inr A' \<and> length A' = length A \<and>
           (n \<le> lda \<longrightarrow>
              (\<forall>r c. 0 \<le> r \<and> r < m \<and> 0 \<le> c \<and> c < n \<longrightarrow> A' ! nat (lda * r + c) = cell NCU matA r c))"
proof (cases "0 \<le> m")
  case False
  then show ?thesis by (auto simp: LoopWrite_def for_loop_done)
next
  case m0: True
  have off: "0 \<le> lda * r + c" "lda * r + c < int (length A)"
    if "0 \<le> r" "r < m" "0 \<le> c" "c < n" for r c
    using assms(4) that by (auto simp: ext_ok_def inb_def)
  let ?D = "\<lambda>B r c. B ! nat (lda * r + c) = cell NCU matA r c"
  let ?P = "\<lambda>x B. length B = length A \<and>
             (n \<le> lda \<longrightarrow> (\<forall>r c. 0 \<le> r \<and> r < x \<and> 0 \<le> c \<and> c < n \<longrightarrow> ?D B r c))"
  have "\<exists>A'. for_loop 0 m (\<lambda>r. for_loop 0 n (LoopWrite_body NCU NRCU NCMAX matA lda r)) A = Inr A' \<and> ?P m A'"
  proof (rule for_loop_total[where P = ?P])
    show "0 \<le> m" by fact
    show "?P 0 A" by auto
  next
    fix r B
    assume r: "0 \<le> r" "r < m" and P: "?P r B"
    show "\<exists>B'. for_loop 0 n (LoopWrite_body NCU NRCU NCMAX matA lda r) B = Inr B' \<and> ?P (r + 1) B'"
    proof (cases "0 \<le> n")
      case False
      with P show ?thesis by (auto simp: for_loop_done)
    next
      case n0: True
      let ?Q = "\<lambda>y C. length C = length A \<and>
             (n \<le> lda \<longrightarrow> (\<forall>r' c. 0 \<le> r' \<and> 0 \<le> c \<and> c < n \<and> (r' < r \<or> (r' = r \<and> c < y)) \<longrightarrow> ?D C r' c))"
      have "\<exists>B'. for_loop 0 n (LoopWrite_body NCU NRCU NCMAX matA lda r) B = Inr B' \<and> ?Q n B'"
      proof (rule for_loop_total[where P = ?Q])
        show "0 \<le> n" by fact
        show "?Q 0 B" using P by auto
      next
        fix y C
        assume y: "0 \<le> y" "y < n" and Q: "?Q y C"
        have comm: "r * lda + y = lda * r + y" by simp
        have ok: "inb (int (length C)) (r * lda + y)"
          unfolding comm using off[OF r y] Q by (simp add: inb_def)
        let ?C' = "C[nat (lda * r + y) := cell NCU matA r y]"
        have len: "length ?C' = length A" using Q by simp
        have "?D ?C' r' c" if le: "n \<le> lda"
          and rc: "0 \<le> r' \<and> 0 \<le> c \<and> c < n \<and> (r' < r \<or> (r' = r \<and> c < y + 1))" for r' c
        proof (cases "r' = r \<and> c = y")
          case True
          then show ?thesis using off[OF r y] Q by simp
        next
          case False
          have r'm: "r' < m" using rc r by auto
          have "lda * r' + c \<noteq> lda * r + y"
            using offset_inj[of c n y lda r' r] rc y le False by auto
          then have "nat (lda * r' + c) \<noteq> nat (lda * r + y)"
            using off(1)[OF r y] off(1)[of r' c] rc r'm by simp
          then have "?C' ! nat (lda * r' + c) = C ! nat (lda * r' + c)" by simp
          moreover have "r' < r \<or> (r' = r \<and> c < y)" using rc False by auto
          ultimately show ?thesis using Q le rc by simp
        qed
        then have "?Q (y + 1) ?C'" using len by blast
        then show "\<exists>C'. LoopWrite_body NCU NRCU NCMAX matA lda r y C = Inr C' \<and> ?Q (y + 1) C'"
          using ok by (simp add: LoopWrite_body_ok[OF assms(1) r assms(2) y assms(3)] comm)
      qed
      then obtain B' where run: "for_loop 0 n (LoopWrite_body NCU NRCU NCMAX matA lda r) B = Inr B'"
        and Q: "?Q n B'" by blast
      have "?P (r + 1) B'"
      proof (intro conjI impI allI)
        show "length B' = length A" using Q by simp
      next
        fix r' c
        assume le: "n \<le> lda" and a: "0 \<le> r' \<and> r' < r + 1 \<and> 0 \<le> c \<and> c < n"
        then have "0 \<le> r' \<and> 0 \<le> c \<and> c < n \<and> (r' < r \<or> (r' = r \<and> c < n))" by auto
        with Q le show "?D B' r' c" by blast
      qed
      with run show ?thesis by blast
    qed
  qed
  then show ?thesis by (simp add: LoopWrite_def)
qed

lemma getrf_nopivot_returns:
  fixes A :: "'a::field list"
  assumes "0 < NCU" "0 < NRMAX" "0 < NCMAX" "NRMAX * NCMAX < 2 ^ 31"
    and "m \<le> NRMAX" "n \<le> NCMAX" "ext_ok m n lda A" "m - 1 \<le> NCMAX"
  shows "\<exists>A'. getrf_nopivot NRMAX NCMAX NCU matA0 pivot0 m n A lda info = Inr (A', info)"
proof -
  define R where "R = (NRMAX + NCU - 1) div NCU"
  note b = template_bounds[OF assms(1,2,3,4,5), folded R_def]
  from LoopRead_closed[OF assms(1) b(1) assms(6,7), of matA0]
  obtain M where rd: "LoopRead NCU R NCMAX m n A lda matA0 = Inr M" by blast
  from core_returns[OF assms(1) b(1,2,3) assms(6) b(4) assms(8), of pivot0 M lda]
  obtain M' where co: "getrf_nopivot_core R NCMAX NCU pivot0 m n M lda = Inr M'" by blast
  from LoopWrite_closed[OF assms(1) b(1) assms(6,7), of M']
  obtain A' where wr: "LoopWrite NCU R NCMAX m n M' lda A = Inr A'" by blast
  show ?thesis
    using rd co wr by (simp add: getrf_nopivot_def R_def[symmetric])
qed

text \<open>
  C6: for a fixed external buffer \<open>A\<close> and fixed \<open>m \<le> NRMAX\<close>, \<open>n \<le> NCMAX\<close> and \<open>lda\<close>, the
  result of \<open>getrf_nopivot\<close> is the same for any two lane counts \<open>NCU1\<close> and \<open>NCU2\<close> (and
  whatever the uninitialised arrays hold); it is a returned buffer whenever the offsets of
  the matrix lie in \<open>A\<close> and \<open>m - 1 \<le> NCMAX\<close>.
\<close>

theorem lane_count_invariance:
  fixes A :: "'a::field list"
  assumes "0 < NCU1" "0 < NCU2" "0 < NRMAX" "0 < NCMAX" "NRMAX * NCMAX < 2 ^ 31"
    and "m \<le> NRMAX" "n \<le> NCMAX"
  shows "getrf_nopivot NRMAX NCMAX NCU1 matA1 pivot1 m n A lda info =
         getrf_nopivot NRMAX NCMAX NCU2 matA2 pivot2 m n A lda info \<and>
         (ext_ok m n lda A \<and> m - 1 \<le> NCMAX \<longrightarrow>
            (\<exists>A'. getrf_nopivot NRMAX NCMAX NCU1 matA1 pivot1 m n A lda info = Inr (A', info)))"
  using getrf_nopivot_indep[OF assms] getrf_nopivot_returns[OF assms(1,3,4,5,6,7)]
  by blast

theorem lane_count_invariance_witness:
  "getrf_nopivot 4 3 1 (\<lambda>_ _ _. 9) (\<lambda>_ _ _. 7) 3 3 [4, 3, 2, 2, 1, 1, 1, 1, 1 :: rat] 3 0 =
   getrf_nopivot 4 3 4 (\<lambda>_ _ _. 5) (\<lambda>_ _ _. 1) 3 3 [4, 3, 2, 2, 1, 1, 1, 1, 1 :: rat] 3 0 \<and>
   getrf_nopivot 4 3 4 (\<lambda>_ _ _. 5) (\<lambda>_ _ _. 1) 3 3 [4, 3, 2, 2, 1, 1, 1, 1, 1 :: rat] 3 0 =
     Inr ([4, 3, 2, 1 / 2, - 1 / 2, 0, 1 / 4, - 1 / 2, 1 / 2], 0)"
proof -
  have "(0::int) < 1" "(0::int) < 4" "(0::int) < 4" "(0::int) < 3" "(4::int) * 3 < 2 ^ 31"
    "(3::int) \<le> 4" "(3::int) \<le> 3"
    by simp_all
  from lane_count_invariance[OF this]
  have "getrf_nopivot 4 3 1 (\<lambda>_ _ _. 9) (\<lambda>_ _ _. 7) 3 3 [4, 3, 2, 2, 1, 1, 1, 1, 1 :: rat] 3 0 =
   getrf_nopivot 4 3 4 (\<lambda>_ _ _. 5) (\<lambda>_ _ _. 1) 3 3 [4, 3, 2, 2, 1, 1, 1, 1, 1 :: rat] 3 0"
    by blast
  moreover have "getrf_nopivot 4 3 4 (\<lambda>_ _ _. 5) (\<lambda>_ _ _. 1) 3 3 [4, 3, 2, 2, 1, 1, 1, 1, 1 :: rat] 3 0 =
     Inr ([4, 3, 2, 1 / 2, - 1 / 2, 0, 1 / 4, - 1 / 2, 1 / 2], 0)"
    by code_simp
  ultimately show ?thesis by blast
qed

text \<open>
  C9: for \<open>m \<le> NRMAX\<close> and \<open>n \<le> NCMAX\<close> the result of \<open>getrf_nopivot\<close> does not depend on what
  the internal buffer holds outside the matrix (the uninitialised \<open>matA\<close>, of which only
  the \<open>m\<close> by \<open>n\<close> cells are loaded) nor on the uninitialised pivot array, although the
  update runs over all \<open>NCMAX\<close> columns and all local rows: two runs that differ only there
  return the same external buffer; it is a returned buffer whenever the offsets of the
  matrix lie in \<open>A\<close> and \<open>m - 1 \<le> NCMAX\<close>.
\<close>

theorem padding_noninterference:
  fixes A :: "'a::field list"
  assumes "0 < NCU" "0 < NRMAX" "0 < NCMAX" "NRMAX * NCMAX < 2 ^ 31"
    and "m \<le> NRMAX" "n \<le> NCMAX"
  shows "getrf_nopivot NRMAX NCMAX NCU matA1 pivot1 m n A lda info =
         getrf_nopivot NRMAX NCMAX NCU matA2 pivot2 m n A lda info \<and>
         (ext_ok m n lda A \<and> m - 1 \<le> NCMAX \<longrightarrow>
            (\<exists>A'. getrf_nopivot NRMAX NCMAX NCU matA1 pivot1 m n A lda info = Inr (A', info)))"
  using getrf_nopivot_indep[OF assms(1,1,2-6)] getrf_nopivot_returns[OF assms]
  by blast

theorem padding_noninterference_witness:
  "getrf_nopivot 4 4 2 (\<lambda>_ _ _. 9) (\<lambda>_ _ _. 7) 3 2 [4, 3, 6, 3, 2, 5 :: rat] 2 0 =
   getrf_nopivot 4 4 2 (\<lambda>i r c. rat_of_int (i + r * c)) (\<lambda>s i c. rat_of_int (s - c)) 3 2 [4, 3, 6, 3, 2, 5 :: rat] 2 0 \<and>
   getrf_nopivot 4 4 2 (\<lambda>_ _ _. 9) (\<lambda>_ _ _. 7) 3 2 [4, 3, 6, 3, 2, 5 :: rat] 2 0 =
     Inr ([4, 3, 3 / 2, - 3 / 2, 1 / 2, - 7 / 3], 0)"
proof -
  have "(0::int) < 2" "(0::int) < 4" "(0::int) < 4" "(4::int) * 4 < 2 ^ 31"
    "(3::int) \<le> 4" "(2::int) \<le> 4"
    by simp_all
  from padding_noninterference[OF this]
  have "getrf_nopivot 4 4 2 (\<lambda>_ _ _. 9) (\<lambda>_ _ _. 7) 3 2 [4, 3, 6, 3, 2, 5 :: rat] 2 0 =
   getrf_nopivot 4 4 2 (\<lambda>i r c. rat_of_int (i + r * c)) (\<lambda>s i c. rat_of_int (s - c)) 3 2 [4, 3, 6, 3, 2, 5 :: rat] 2 0"
    by blast
  moreover have "getrf_nopivot 4 4 2 (\<lambda>_ _ _. 9) (\<lambda>_ _ _. 7) 3 2 [4, 3, 6, 3, 2, 5 :: rat] 2 0 =
     Inr ([4, 3, 3 / 2, - 3 / 2, 1 / 2, - 7 / 3], 0)"
    by code_simp
  ultimately show ?thesis by blast
qed

section \<open>Determinants\<close>

lemma det_cong:
  "(\<And>r c. r < n \<Longrightarrow> c < n \<Longrightarrow> A r c = B r c) \<Longrightarrow> det n A = det n B"
proof (induction n arbitrary: A B)
  case 0
  show ?case by simp
next
  case (Suc n)
  have "(- 1) ^ i * A i 0 * det n (minor_mat i A) = (- 1) ^ i * B i 0 * det n (minor_mat i B)"
    if "i < Suc n" for i
  proof -
    have "det n (minor_mat i A) = det n (minor_mat i B)"
      by (rule Suc.IH) (use that in \<open>auto simp: minor_mat_def intro!: Suc.prems\<close>)
    moreover have "A i 0 = B i 0" using that by (intro Suc.prems) auto
    ultimately show ?thesis by simp
  qed
  then show ?case by simp
qed

lemma det_upper:
  "(\<And>r c. r < n \<Longrightarrow> c < r \<Longrightarrow> A r c = 0) \<Longrightarrow> det n A = (\<Prod>i < n. A i i)"
proof (induction n arbitrary: A)
  case 0
  show ?case by simp
next
  case (Suc n)
  have z: "(- 1) ^ i * A i 0 * det n (minor_mat i A) = 0" if "i \<in> {..<Suc n} - {0}" for i
    using that Suc.prems[of i 0] by auto
  have "det (Suc n) A = (\<Sum>i \<in> {0}. (- 1) ^ i * A i 0 * det n (minor_mat i A))"
    unfolding det.simps by (rule sum.mono_neutral_right) (use z in auto)
  also have "\<dots> = A 0 0 * det n (minor_mat 0 A)" by simp
  also have "det n (minor_mat 0 A) = (\<Prod>i < n. minor_mat 0 A i i)"
    by (rule Suc.IH) (use Suc.prems in \<open>auto simp: minor_mat_def\<close>)
  also have "\<dots> = (\<Prod>i < n. A (Suc i) (Suc i))" by (simp add: minor_mat_def)
  also have "A 0 0 * \<dots> = (\<Prod>i < Suc n. A i i)"
    by (subst prod.lessThan_Suc_shift) simp
  finally show ?case .
qed

lemma minor_row_set_same: "minor_mat i (row_set i v A) = minor_mat i A"
  by (auto simp: minor_mat_def row_set_def fun_eq_iff)

lemma minor_row_set_other:
  "k \<noteq> i \<Longrightarrow> minor_mat k (row_set i v A) =
     row_set (if i < k then i else i - 1) (\<lambda>c. v (Suc c)) (minor_mat k A)"
  by (auto simp: minor_mat_def row_set_def fun_eq_iff)

lemma det_row_linear:
  fixes A :: "nat \<Rightarrow> nat \<Rightarrow> 'a::comm_ring_1"
  shows "i < n \<Longrightarrow> det n (row_set i (\<lambda>c. u c + a * v c) A) =
     det n (row_set i u A) + a * det n (row_set i v A)"
proof (induction n arbitrary: A u v i)
  case 0
  then show ?case by simp
next
  case (Suc n)
  let ?B = "row_set i (\<lambda>c. u c + a * v c) A"
  let ?U = "row_set i u A" and ?V = "row_set i v A"
  have tm: "(- 1) ^ k * ?B k 0 * det n (minor_mat k ?B) =
      (- 1) ^ k * ?U k 0 * det n (minor_mat k ?U) + a * ((- 1) ^ k * ?V k 0 * det n (minor_mat k ?V))"
    if "k < Suc n" for k
  proof (cases "k = i")
    case True
    then show ?thesis
      by (simp add: minor_row_set_same) (simp add: row_set_def algebra_simps)
  next
    case False
    define i' where "i' = (if i < k then i else i - 1)"
    have i': "i' < n" using False that Suc.prems by (auto simp: i'_def)
    have "det n (minor_mat k ?B) = det n (row_set i' (\<lambda>c. u (Suc c) + a * v (Suc c)) (minor_mat k A))"
      by (simp add: minor_row_set_other[OF False] i'_def)
    also have "\<dots> = det n (row_set i' (\<lambda>c. u (Suc c)) (minor_mat k A)) +
                      a * det n (row_set i' (\<lambda>c. v (Suc c)) (minor_mat k A))"
      by (rule Suc.IH[OF i'])
    also have "\<dots> = det n (minor_mat k ?U) + a * det n (minor_mat k ?V)"
      by (simp add: minor_row_set_other[OF False] i'_def)
    finally show ?thesis using False by (simp add: row_set_def algebra_simps)
  qed
  have "det (Suc n) ?B =
      (\<Sum>k < Suc n. (- 1) ^ k * ?U k 0 * det n (minor_mat k ?U) +
                       a * ((- 1) ^ k * ?V k 0 * det n (minor_mat k ?V)))"
    unfolding det.simps by (rule sum.cong) (use tm in auto)
  also have "\<dots> = det (Suc n) ?U + a * det (Suc n) ?V"
    unfolding det.simps by (simp only: sum.distrib sum_distrib_left)
  finally show ?case .
qed

lemma det_adjacent_rows_equal:
  fixes A :: "nat \<Rightarrow> nat \<Rightarrow> 'a::comm_ring_1"
  shows "Suc p < n \<Longrightarrow> (\<And>c. c < n \<Longrightarrow> A p c = A (Suc p) c) \<Longrightarrow> det n A = 0"
proof (induction n arbitrary: A p)
  case 0
  then show ?case by simp
next
  case (Suc n)
  let ?t = "\<lambda>k. (- 1) ^ k * A k 0 * det n (minor_mat k A)"
  have other: "?t k = 0" if "k \<in> {..<Suc n} - {p, Suc p}" for k
  proof -
    have k: "k < Suc n" "k \<noteq> p" "k \<noteq> Suc p" using that by auto
    have "det n (minor_mat k A) = 0"
    proof (cases "k < p")
      case True
      then obtain p' where p': "p = Suc p'" by (cases p) auto
      show ?thesis
      proof (rule Suc.IH[of p'])
        show "Suc p' < n" using Suc.prems(1) p' by simp
        fix c assume "c < n"
        then show "minor_mat k A p' c = minor_mat k A (Suc p') c"
          using True p' Suc.prems(2)[of "Suc c"] by (auto simp: minor_mat_def)
      qed
    next
      case False
      with k have kp: "Suc p < k" by simp
      show ?thesis
      proof (rule Suc.IH[of p])
        show "Suc p < n" using kp k(1) by simp
        fix c assume "c < n"
        then show "minor_mat k A p c = minor_mat k A (Suc p) c"
          using kp Suc.prems(2)[of "Suc c"] by (auto simp: minor_mat_def)
      qed
    qed
    then show ?thesis by simp
  qed
  have same: "det n (minor_mat p A) = det n (minor_mat (Suc p) A)"
  proof (rule det_cong)
    fix r c assume rc: "r < n" "c < n"
    then have "A p (Suc c) = A (Suc p) (Suc c)" by (intro Suc.prems(2)) simp
    then show "minor_mat p A r c = minor_mat (Suc p) A r c"
      by (auto simp: minor_mat_def less_Suc_eq)
  qed
  have "det (Suc n) A = (\<Sum>k \<in> {p, Suc p}. ?t k)"
    unfolding det.simps by (rule sum.mono_neutral_right) (use other Suc.prems(1) in auto)
  also have "\<dots> = ?t p + ?t (Suc p)" by simp
  also have "\<dots> = 0"
    using Suc.prems(2)[of 0] by (simp add: same)
  finally show ?case .
qed

lemma row_set_commute:
  "i \<noteq> k \<Longrightarrow> row_set i u (row_set k w A) = row_set k w (row_set i u A)"
  by (auto simp: row_set_def fun_eq_iff)

lemma row_set_self: "row_set i (A i) A = A"
  by (auto simp: row_set_def fun_eq_iff)

lemma det_adjacent_swap:
  fixes A :: "nat \<Rightarrow> nat \<Rightarrow> 'a::comm_ring_1"
  assumes "Suc p < n"
  shows "det n (row_set p (A (Suc p)) (row_set (Suc p) (A p) A)) = - det n A"
proof -
  define R where "R u w = det n (row_set p u (row_set (Suc p) w A))" for u w
  let ?a = "A p" and ?b = "A (Suc p)"
  have p: "p < n" using assms by simp
  have lin1: "R (\<lambda>c. u c + 1 * v c) w = R u w + 1 * R v w" for u v w
    unfolding R_def by (rule det_row_linear[OF p])
  have lin2: "R u (\<lambda>c. v c + 1 * w c) = R u v + 1 * R u w" for u v w
    unfolding R_def
    by (simp only: row_set_commute[of p "Suc p"] n_not_Suc_n not_False_eq_True)
       (rule det_row_linear[OF assms])
  have z: "R u u = 0" for u
    unfolding R_def by (rule det_adjacent_rows_equal[OF assms]) (simp add: row_set_def)
  have "R (\<lambda>c. ?a c + 1 * ?b c) (\<lambda>c. ?a c + 1 * ?b c) = 0" by (rule z)
  then have "R ?a ?b + R ?b ?a = 0"
    by (simp only: lin1 lin2 z) simp
  moreover have "R ?a ?b = det n A"
    by (simp add: R_def row_set_self)
  ultimately show ?thesis
    by (simp add: R_def add_eq_0_iff)
qed

lemma det_rows_equal:
  fixes A :: "nat \<Rightarrow> nat \<Rightarrow> 'a::comm_ring_1"
  shows "p < q \<Longrightarrow> q < n \<Longrightarrow> (\<And>c. c < n \<Longrightarrow> A p c = A q c) \<Longrightarrow> det n A = 0"
proof (induction q arbitrary: A)
  case 0
  then show ?case by simp
next
  case (Suc q)
  show ?case
  proof (cases "p = q")
    case True
    with Suc.prems show ?thesis by (intro det_adjacent_rows_equal[of q n A]) auto
  next
    case False
    with Suc.prems(1) have pq: "p < q" by simp
    let ?A' = "row_set q (A (Suc q)) (row_set (Suc q) (A q) A)"
    have "det n ?A' = 0"
    proof (rule Suc.IH[OF pq])
      show "q < n" using Suc.prems(2) by simp
      fix c assume "c < n"
      then show "?A' p c = ?A' q c" using pq Suc.prems(3) by (simp add: row_set_def)
    qed
    moreover have "det n ?A' = - det n A"
      by (rule det_adjacent_swap) (use Suc.prems(2) in simp)
    ultimately show ?thesis by simp
  qed
qed

lemma det_row_op:
  fixes A :: "nat \<Rightarrow> nat \<Rightarrow> 'a::comm_ring_1"
  assumes "i \<noteq> k" "i < n" "k < n"
  shows "det n (row_set i (\<lambda>c. A i c + a * A k c) A) = det n A"
proof -
  have "det n (row_set i (A k) A) = 0"
  proof (cases "i < k")
    case True
    show ?thesis by (rule det_rows_equal[OF True assms(3)]) (use assms(1) in \<open>simp add: row_set_def\<close>)
  next
    case False
    with assms(1) have "k < i" by simp
    then show ?thesis by (rule det_rows_equal[OF _ assms(2)]) (use assms(1) in \<open>simp add: row_set_def\<close>)
  qed
  then show ?thesis
    by (simp add: det_row_linear[OF assms(2)] row_set_self)
qed

section \<open>The factorisation\<close>

declare elim.simps [simp del]

lemma core_elim:
  fixes a :: "'a::field lanes"
  assumes "0 < NCU" "m \<le> NCU * NRCU" "NRCU < 2 ^ 31" "NRCU * NCMAX < 2 ^ 31"
    and "n \<le> NCMAX" "NCMAX < 2 ^ 31" "hi \<le> NCMAX" "hi \<le> m - 1"
    and "0 \<le> s" "agree m n (cell NCU a) M"
  shows "\<exists>a'. for_loop s hi (sweep NRCU NCMAX NCU pivot0 m n) a = Inr a' \<and>
              agree m n (cell NCU a') (elim s hi M)"
  using assms(7-10)
proof (induction s hi M arbitrary: a rule: elim.induct)
  case (1 s hi M)
  note hi = "1.prems"(1,2) and s0 = "1.prems"(3) and ag0 = "1.prems"(4)
  show ?case
  proof (cases "s < hi")
    case False
    with ag0 show ?thesis by (simp add: for_loop_done elim.simps)
  next
    case True
    have sm: "s < m" using True hi(2) by simp
    have ib: "inb NCMAX s" using True hi(1) s0 by (simp add: inb_def)
    have st: "sweep NRCU NCMAX NCU pivot0 m n s a = Inr (sweep_post NRCU NCMAX NCU pivot0 m n s a)"
      by (rule sweep_closed[OF assms(1) s0 sm assms(2,5) ib assms(3,6,4)])
    have "agree m n (elim_step s (cell NCU a)) (elim_step s M)"
      by (rule elim_step_agree[OF ag0 s0 sm])
    then have ag: "agree m n (cell NCU (sweep_post NRCU NCMAX NCU pivot0 m n s a)) (elim_step s M)"
      unfolding agree_def by (simp add: sweep_region[OF assms(1) s0 assms(2,5)])
    have "\<exists>a'. for_loop (s + 1) hi (sweep NRCU NCMAX NCU pivot0 m n)
                 (sweep_post NRCU NCMAX NCU pivot0 m n s a) = Inr a' \<and>
               agree m n (cell NCU a') (elim (s + 1) hi (elim_step s M))"
      by (rule "1.IH"[OF True hi _ ag]) (use s0 in simp)
    then show ?thesis
      using True st by (subst elim.simps) (simp add: for_loop_step)
  qed
qed

lemma getrf_nopivot_value:
  fixes A :: "'a::field list"
  assumes "0 < NCU" "0 < NRMAX" "0 < NCMAX" "NRMAX * NCMAX < 2 ^ 31"
    and "m \<le> NRMAX" "n \<le> NCMAX" "ext_ok m n lda A" "m - 1 \<le> NCMAX" "n \<le> lda"
  shows "\<exists>A'. getrf_nopivot NRMAX NCMAX NCU matA0 pivot0 m n A lda info = Inr (A', info) \<and>
           length A' = length A \<and>
           (\<forall>j c. 0 \<le> j \<and> j < m \<and> 0 \<le> c \<and> c < n \<longrightarrow>
              A' ! nat (lda * j + c) = elim 0 (m - 1) (\<lambda>j c. A ! nat (lda * j + c)) j c)"
proof -
  define R where "R = (NRMAX + NCU - 1) div NCU"
  note b = template_bounds[OF assms(1,2,3,4,5), folded R_def]
  from LoopRead_closed[OF assms(1) b(1) assms(6,7), of matA0]
  obtain M where rd: "LoopRead NCU R NCMAX m n A lda matA0 = Inr M"
    and M: "\<forall>j c. 0 \<le> j \<and> j < m \<and> 0 \<le> c \<and> c < n \<longrightarrow> cell NCU M j c = A ! nat (lda * j + c)"
    by blast
  have ag: "agree m n (cell NCU M) (\<lambda>j c. A ! nat (lda * j + c))"
    using M by (simp add: agree_def)
  from core_elim[OF assms(1) b(1,2,3) assms(6) b(4) assms(8) order_refl order_refl ag, of pivot0]
  obtain M' where co: "getrf_nopivot_core R NCMAX NCU pivot0 m n M lda = Inr M'"
    and M': "agree m n (cell NCU M') (elim 0 (m - 1) (\<lambda>j c. A ! nat (lda * j + c)))"
    by (auto simp: getrf_nopivot_core_def)
  from LoopWrite_closed[OF assms(1) b(1) assms(6,7), of M']
  obtain A' where wr: "LoopWrite NCU R NCMAX m n M' lda A = Inr A'"
    and len: "length A' = length A"
    and val: "\<forall>r c. 0 \<le> r \<and> r < m \<and> 0 \<le> c \<and> c < n \<longrightarrow> A' ! nat (lda * r + c) = cell NCU M' r c"
    using assms(9) by blast
  have "getrf_nopivot NRMAX NCMAX NCU matA0 pivot0 m n A lda info = Inr (A', info)"
    using rd co wr by (simp add: getrf_nopivot_def R_def[symmetric])
  moreover have "\<forall>j c. 0 \<le> j \<and> j < m \<and> 0 \<le> c \<and> c < n \<longrightarrow>
              A' ! nat (lda * j + c) = elim 0 (m - 1) (\<lambda>j c. A ! nat (lda * j + c)) j c"
    using val M' by (simp add: agree_def)
  ultimately show ?thesis using len by blast
qed

lemma elim_invariant:
  assumes "P s M" "s \<le> hi"
    and "\<And>x N. s \<le> x \<Longrightarrow> x < hi \<Longrightarrow> P x N \<Longrightarrow> P (x + 1) (elim_step x N)"
  shows "P hi (elim s hi M)"
  using assms
proof (induction s hi M rule: elim.induct)
  case (1 s hi M)
  show ?case
  proof (cases "s < hi")
    case False
    with "1.prems"(1,2) show ?thesis by (simp add: elim.simps)
  next
    case True
    have "P hi (elim (s + 1) hi (elim_step s M))"
    proof (rule "1.IH"[OF True])
      show "P (s + 1) (elim_step s M)" using "1.prems"(1,3) True by simp
      show "s + 1 \<le> hi" using True by simp
      show "\<And>x N. s + 1 \<le> x \<Longrightarrow> x < hi \<Longrightarrow> P x N \<Longrightarrow> P (x + 1) (elim_step x N)"
        using "1.prems"(3) by simp
    qed
    with True show ?thesis by (subst elim.simps) simp
  qed
qed

lemma elim_step_frozen: "j \<le> s \<or> c < s \<Longrightarrow> elim_step s M j c = M j c"
  by (auto simp: elim_step_def)

lemma sum_int_upto_Suc:
  fixes f :: "int \<Rightarrow> 'a::comm_monoid_add"
  assumes "0 \<le> s"
  shows "sum f {0..<s + 1} = sum f {0..<s} + f s"
proof -
  have "{0..<s + 1} = insert s {0..<s}" using assms by auto
  then show ?thesis by (simp add: add.commute)
qed

lemma recon_step:
  fixes M :: "int \<Rightarrow> int \<Rightarrow> 'a::field"
  assumes "0 \<le> s" "c = s \<longrightarrow> s < j \<longrightarrow> M s s \<noteq> 0"
    and "a = (\<Sum>k = 0..<s. Lf M j k * Uf M k c) + (if s \<le> j \<and> s \<le> c then M j c else 0)"
  shows "a = (\<Sum>k = 0..<s + 1. Lf (elim_step s M) j k * Uf (elim_step s M) k c) +
             (if s + 1 \<le> j \<and> s + 1 \<le> c then elim_step s M j c else 0)"
proof -
  let ?M' = "elim_step s M"
  have old: "Lf ?M' j k * Uf ?M' k c = Lf M j k * Uf M k c" if "k \<in> {0..<s}" for k
    using that by (simp add: Lf_def Uf_def elim_step_frozen)
  have U: "Uf ?M' s c = (if s \<le> c then M s c else 0)"
    by (simp add: Uf_def elim_step_frozen)
  have L: "Lf ?M' j s = (if s < j then M j s / M s s else if s = j then 1 else 0)"
    by (simp add: Lf_def elim_step_def)
  have "(if s \<le> j \<and> s \<le> c then M j c else 0) =
        Lf ?M' j s * Uf ?M' s c + (if s + 1 \<le> j \<and> s + 1 \<le> c then ?M' j c else 0)"
  proof -
    consider "j < s" | "j = s" | "s < j" by linarith
    then show ?thesis
    proof cases
      case 1
      then show ?thesis unfolding U L by simp
    next
      case 2
      then show ?thesis unfolding U L by simp
    next
      case 3
      consider "c < s" | "c = s" | "s < c" by linarith
      then show ?thesis
      proof cases
        case 1
        with 3 show ?thesis unfolding U L by simp
      next
        case 2
        with 3 assms(2) show ?thesis unfolding U L by simp
      next
        case c: 3
        with 3 show ?thesis unfolding U L by (simp add: elim_step_def)
      qed
    qed
  qed
  moreover have "(\<Sum>k = 0..<s. Lf ?M' j k * Uf ?M' k c) = (\<Sum>k = 0..<s. Lf M j k * Uf M k c)"
    by (rule sum.cong) (use old in auto)
  ultimately show ?thesis
    unfolding assms(3) sum_int_upto_Suc[OF assms(1)] by (simp add: add.assoc)
qed

lemma det_rows_below:
  fixes W :: "nat \<Rightarrow> nat \<Rightarrow> 'a::comm_ring_1"
  shows "det n (\<lambda>r c. if s < r then W r c + l r * W s c else W r c) = det n W"
proof -
  define T where "T t = (\<lambda>r c. if s < r \<and> r < t then W r c + l r * W s c else W r c)" for t
  have "det n (T t) = det n W" for t
  proof (induction t)
    case 0
    show ?case by (simp add: T_def)
  next
    case (Suc t)
    show ?case
    proof (cases "s < t \<and> t < n")
      case True
      have "T (Suc t) = row_set t (\<lambda>c. T t t c + l t * T t s c) (T t)"
        using True by (auto simp: T_def row_set_def fun_eq_iff)
      moreover have "det n (row_set t (\<lambda>c. T t t c + l t * T t s c) (T t)) = det n (T t)"
        by (rule det_row_op) (use True in auto)
      ultimately show ?thesis using Suc by simp
    next
      case False
      have "det n (T (Suc t)) = det n (T t)"
        by (rule det_cong) (use False in \<open>auto simp: T_def\<close>)
      with Suc show ?thesis by simp
    qed
  qed
  from this[of n] have "det n (T n) = det n W" .
  moreover have "det n (\<lambda>r c. if s < r then W r c + l r * W s c else W r c) = det n (T n)"
    by (rule det_cong) (simp add: T_def)
  ultimately show ?thesis by simp
qed

lemma reduced_step:
  fixes M :: "int \<Rightarrow> int \<Rightarrow> 'a::field"
  assumes "M s s \<noteq> 0"
  shows "reduced (s + 1) (elim_step s M) =
     (\<lambda>j c. if s < j then reduced s M j c + (- (M j s / M s s)) * reduced s M s c else reduced s M j c)"
proof (intro ext)
  fix j c
  consider "j \<le> s" | "s < j" "c < s" | "s < j" "c = s" | "s < j" "s < c" by linarith
  then show "reduced (s + 1) (elim_step s M) j c =
     (if s < j then reduced s M j c + (- (M j s / M s s)) * reduced s M s c else reduced s M j c)"
  proof cases
    case 1
    then show ?thesis by (auto simp: reduced_def elim_step_def)
  next
    case 2
    then show ?thesis by (simp add: reduced_def)
  next
    case 3
    then show ?thesis using assms by (simp add: reduced_def)
  next
    case 4
    then show ?thesis by (simp add: reduced_def elim_step_def)
  qed
qed

lemma det_reduced_step:
  fixes M :: "int \<Rightarrow> int \<Rightarrow> 'a::field"
  assumes "0 \<le> s" "M s s \<noteq> 0"
  shows "det k (block (reduced (s + 1) (elim_step s M))) = det k (block (reduced s M))"
proof -
  have "block (reduced (s + 1) (elim_step s M)) =
     (\<lambda>r c. if nat s < r then block (reduced s M) r c + (- (M (int r) s / M s s)) * block (reduced s M) (nat s) c
             else block (reduced s M) r c)"
    using assms(1) reduced_step[of M s, OF assms(2)] by (auto simp: block_def fun_eq_iff)
  then show ?thesis
    using det_rows_below[of k "nat s" "block (reduced s M)" "\<lambda>r. - (M (int r) s / M s s)"]
    by simp
qed

lemma det_reduced_late:
  fixes M :: "int \<Rightarrow> int \<Rightarrow> 'a::field"
  assumes "int k \<le> s + 1"
  shows "det k (block (reduced (s + 1) (elim_step s M))) = det k (block (reduced s M))"
proof (rule det_cong)
  fix r c assume "r < k" "c < k"
  then have "int r \<le> s" using assms by simp
  then show "block (reduced (s + 1) (elim_step s M)) r c = block (reduced s M) r c"
    by (auto simp: block_def reduced_def elim_step_frozen)
qed

lemma det_reduced_upper:
  fixes M :: "int \<Rightarrow> int \<Rightarrow> 'a::field"
  assumes "0 \<le> s"
  shows "det (Suc (nat s)) (block (reduced s M)) = (\<Prod>i < Suc (nat s). M (int i) (int i))"
proof -
  have "det (Suc (nat s)) (block (reduced s M)) = (\<Prod>i < Suc (nat s). block (reduced s M) i i)"
    by (rule det_upper) (use assms in \<open>auto simp: block_def reduced_def\<close>)
  also have "\<dots> = (\<Prod>i < Suc (nat s). M (int i) (int i))"
    by (simp add: block_def reduced_def)
  finally show ?thesis .
qed

lemma pivot_nonzero:
  fixes M :: "int \<Rightarrow> int \<Rightarrow> 'a::field"
  assumes "0 \<le> s" "det (Suc (nat s)) (block (reduced s M)) \<noteq> 0"
  shows "M s s \<noteq> 0"
proof
  assume z: "M s s = 0"
  have "(\<Prod>i < Suc (nat s). M (int i) (int i)) = 0"
    using z assms(1) by simp
  with det_reduced_upper[OF assms(1), of M] assms(2) show False by simp
qed

lemma elim_reconstruct:
  fixes A0 :: "int \<Rightarrow> int \<Rightarrow> 'a::field"
  assumes minors: "\<And>k. 0 < k \<Longrightarrow> int k \<le> m \<Longrightarrow> int k \<le> n \<Longrightarrow> det k (block A0) \<noteq> 0"
    and jc: "0 \<le> j" "j < m" "0 \<le> c" "c < n"
  shows "A0 j c = (\<Sum>k = 0..<min m n. Lf (elim 0 (m - 1) A0) j k * Uf (elim 0 (m - 1) A0) k c)"
proof -
  define Mf where "Mf = elim 0 (m - 1) A0"
  let ?R = "\<lambda>x N. \<forall>j c. 0 \<le> j \<and> j < m \<and> 0 \<le> c \<and> c < n \<longrightarrow>
              A0 j c = (\<Sum>k = 0..<x. Lf N j k * Uf N k c) + (if x \<le> j \<and> x \<le> c then N j c else 0)"
  let ?D = "\<lambda>x N. \<forall>k. 0 < k \<and> int k \<le> m \<and> int k \<le> n \<longrightarrow>
              det k (block (reduced x N)) = det k (block A0)"
  let ?P = "\<lambda>x N. 0 \<le> x \<and> ?R x N \<and> ?D x N"
  have m1: "0 \<le> m - 1" using jc by simp
  have "?P (m - 1) (elim 0 (m - 1) A0)"
  proof (rule elim_invariant[where P = ?P])
    show "0 \<le> m - 1" by fact
    have "block (reduced 0 A0) = block A0"
      by (auto simp: block_def reduced_def fun_eq_iff)
    then show "?P 0 A0" by simp
  next
    fix x N
    assume x: "0 \<le> x" "x < m - 1" and P: "?P x N"
    have piv: "N x x \<noteq> 0" if "x < n"
    proof (rule pivot_nonzero[of x N, OF x(1)])
      have k: "0 < Suc (nat x)" "int (Suc (nat x)) \<le> m" "int (Suc (nat x)) \<le> n"
        using x that by auto
      with P have "det (Suc (nat x)) (block (reduced x N)) = det (Suc (nat x)) (block A0)" by blast
      with minors[OF k] show "det (Suc (nat x)) (block (reduced x N)) \<noteq> 0" by simp
    qed
    have R': "?R (x + 1) (elim_step x N)"
    proof (intro allI impI)
      fix j c
      assume a: "0 \<le> j \<and> j < m \<and> 0 \<le> c \<and> c < n"
      with P have "A0 j c = (\<Sum>k = 0..<x. Lf N j k * Uf N k c) + (if x \<le> j \<and> x \<le> c then N j c else 0)"
        by blast
      moreover have "c = x \<longrightarrow> x < j \<longrightarrow> N x x \<noteq> 0" using piv a by auto
      ultimately show "A0 j c = (\<Sum>k = 0..<x + 1. Lf (elim_step x N) j k * Uf (elim_step x N) k c) +
             (if x + 1 \<le> j \<and> x + 1 \<le> c then elim_step x N j c else 0)"
        by (intro recon_step[OF x(1)])
    qed
    have D': "?D (x + 1) (elim_step x N)"
    proof (intro allI impI)
      fix k
      assume k: "0 < k \<and> int k \<le> m \<and> int k \<le> n"
      have "det k (block (reduced (x + 1) (elim_step x N))) = det k (block (reduced x N))"
      proof (cases "x < n")
        case True
        show ?thesis by (rule det_reduced_step[of x N, OF x(1) piv[OF True]])
      next
        case False
        show ?thesis by (rule det_reduced_late) (use False k in simp)
      qed
      with P k show "det k (block (reduced (x + 1) (elim_step x N))) = det k (block A0)" by simp
    qed
    from x(1) R' D' show "?P (x + 1) (elim_step x N)" by simp
  qed
  then have "A0 j c = (\<Sum>k = 0..<m - 1. Lf Mf j k * Uf Mf k c) +
                      (if m - 1 \<le> j \<and> m - 1 \<le> c then Mf j c else 0)"
    using jc unfolding Mf_def by blast
  also have "\<dots> = (\<Sum>k = 0..<min m n. Lf Mf j k * Uf Mf k c)"
  proof (cases "m \<le> n")
    case True
    have "(\<Sum>k = 0..<m - 1 + 1. Lf Mf j k * Uf Mf k c) =
          (\<Sum>k = 0..<m - 1. Lf Mf j k * Uf Mf k c) + Lf Mf j (m - 1) * Uf Mf (m - 1) c"
      by (rule sum_int_upto_Suc[OF m1])
    moreover have "Lf Mf j (m - 1) * Uf Mf (m - 1) c = (if m - 1 \<le> j \<and> m - 1 \<le> c then Mf j c else 0)"
    proof (cases "j = m - 1")
      case True
      then show ?thesis by (simp add: Lf_def Uf_def)
    next
      case False
      with jc have "j < m - 1" by simp
      then show ?thesis by (simp add: Lf_def Uf_def)
    qed
    ultimately show ?thesis using True by (simp add: min_def)
  next
    case False
    then have nm: "n \<le> m - 1" by simp
    have "(\<Sum>k = 0..<m - 1. Lf Mf j k * Uf Mf k c) = (\<Sum>k = 0..<n. Lf Mf j k * Uf Mf k c)"
      by (rule sum.mono_neutral_right) (use nm jc in \<open>auto simp: Uf_def\<close>)
    moreover have "\<not> (m - 1 \<le> c)" using nm jc by simp
    ultimately show ?thesis using False by (simp add: min_def)
  qed
  finally show ?thesis unfolding Mf_def .
qed

text \<open>
  Reconstruction: when the matrix lies in the external buffer with \<open>n \<le> lda\<close>, the sweeps stay
  inside the internal buffer (\<open>m - 1 \<le> NCMAX\<close>) and all leading principal minors of orders
  \<open>1 .. min m n\<close> are nonzero, the call returns and the unit lower triangular \<open>L\<close> times the
  upper triangular \<open>U\<close>, both read from the returned buffer, is the original matrix.
\<close>

theorem getrf_nopivot_reconstruction:
  fixes A :: "'a::field list"
  assumes "0 < NCU" "0 < NRMAX" "0 < NCMAX" "NRMAX * NCMAX < 2 ^ 31"
    and "m \<le> NRMAX" "n \<le> NCMAX" "ext_ok m n lda A" "m - 1 \<le> NCMAX" "n \<le> lda"
    and minors: "\<And>k. 0 < k \<Longrightarrow> int k \<le> m \<Longrightarrow> int k \<le> n \<Longrightarrow> leading_minor lda A k \<noteq> 0"
  shows "\<exists>A'. getrf_nopivot NRMAX NCMAX NCU matA0 pivot0 m n A lda info = Inr (A', info) \<and>
           (\<forall>j c. 0 \<le> j \<and> j < m \<and> 0 \<le> c \<and> c < n \<longrightarrow>
              LU_product m n lda A' j c = A ! nat (lda * j + c))"
proof -
  define A0 where "A0 = (\<lambda>j c. A ! nat (lda * j + c))"
  define Mf where "Mf = elim 0 (m - 1) A0"
  from getrf_nopivot_value[OF assms(1-9), of matA0 pivot0 info]
  obtain A' where run: "getrf_nopivot NRMAX NCMAX NCU matA0 pivot0 m n A lda info = Inr (A', info)"
    and val: "\<forall>j c. 0 \<le> j \<and> j < m \<and> 0 \<le> c \<and> c < n \<longrightarrow> A' ! nat (lda * j + c) = Mf j c"
    unfolding Mf_def A0_def by blast
  have bl: "block A0 = (\<lambda>r c. A ! nat (lda * int r + int c))"
    by (simp add: block_def A0_def)
  have mn: "det k (block A0) \<noteq> 0" if "0 < k" "int k \<le> m" "int k \<le> n" for k
    using minors[OF that] by (simp add: leading_minor_def bl)
  have "LU_product m n lda A' j c = A ! nat (lda * j + c)"
    if jc: "0 \<le> j" "j < m" "0 \<le> c" "c < n" for j c
  proof -
    have tm: "Lmat lda A' j k * Umat lda A' k c = Lf Mf j k * Uf Mf k c" if "k \<in> {0..<min m n}" for k
    proof -
      have k: "0 \<le> k" "k < m" "k < n" using that by auto
      have "Lmat lda A' j k = Lf Mf j k"
        using val jc k by (simp add: Lmat_def Lf_def)
      moreover have "Umat lda A' k c = Uf Mf k c"
        using val jc k by (simp add: Umat_def Uf_def)
      ultimately show ?thesis by simp
    qed
    have "LU_product m n lda A' j c = (\<Sum>k = 0..<min m n. Lf Mf j k * Uf Mf k c)"
      unfolding LU_product_def by (rule sum.cong) (use tm in auto)
    also have "\<dots> = A0 j c"
      unfolding Mf_def by (rule elim_reconstruct[OF mn jc, symmetric])
    finally show ?thesis by (simp add: A0_def)
  qed
  with run show ?thesis by blast
qed

theorem getrf_nopivot_reconstruction_witness:
  "\<exists>A'. getrf_nopivot 4 4 2 (\<lambda>_ _ _. 9) (\<lambda>_ _ _. 7) 2 2 [4, 3, 6, 3 :: rat] 2 0 = Inr (A', 0) \<and>
      LU_product 2 2 2 A' 1 0 = 6 \<and> LU_product 2 2 2 A' 1 1 = 3"
proof -
  have ok: "ext_ok 2 2 2 [4, 3, 6, 3 :: rat]"
    by (auto simp: ext_ok_def inb_def)
  have mn: "leading_minor 2 [4, 3, 6, 3 :: rat] k \<noteq> 0" if "0 < k" "int k \<le> 2" "int k \<le> 2" for k
  proof -
    from that have "k = 1 \<or> k = 2" by auto
    then show ?thesis
      by (auto simp: leading_minor_def minor_mat_def numeral_2_eq_2)
  qed
  have "(0::int) < 2" "(0::int) < 4" "(0::int) < 4" "(4::int) * 4 < 2 ^ 31" "(2::int) \<le> 4" "(2::int) \<le> 4"
    by simp_all
  from getrf_nopivot_reconstruction[OF this ok _ _ mn, of "\<lambda>_ _ _. 9" "\<lambda>_ _ _. 7" 0]
  obtain A' where run: "getrf_nopivot 4 4 2 (\<lambda>_ _ _. 9) (\<lambda>_ _ _. 7) 2 2 [4, 3, 6, 3 :: rat] 2 0 = Inr (A', 0)"
    and lu: "\<forall>j c. 0 \<le> j \<and> j < 2 \<and> 0 \<le> c \<and> c < 2 \<longrightarrow>
                LU_product 2 2 2 A' j c = [4, 3, 6, 3 :: rat] ! nat (2 * j + c)"
    by auto
  have "LU_product 2 2 2 A' 1 0 = 6" "LU_product 2 2 2 A' 1 1 = 3"
    using lu[rule_format, of 1 0] lu[rule_format, of 1 1] by simp_all
  with run show ?thesis by blast
qed

section \<open>Concrete matrices\<close>

lemma list9_eqI:
  assumes "length xs = 9"
    and "xs ! 0 = a0" "xs ! 1 = a1" "xs ! 2 = a2" "xs ! 3 = a3" "xs ! 4 = a4"
        "xs ! 5 = a5" "xs ! 6 = a6" "xs ! 7 = a7" "xs ! 8 = a8"
  shows "xs = [a0, a1, a2, a3, a4, a5, a6, a7, a8]"
proof (rule nth_equalityI)
  show "length xs = length [a0, a1, a2, a3, a4, a5, a6, a7, a8]" using assms(1) by simp
next
  fix i assume "i < length xs"
  then have "i \<in> {0, 1, 2, 3, 4, 5, 6, 7, 8}" using assms(1) by auto
  then show "xs ! i = [a0, a1, a2, a3, a4, a5, a6, a7, a8] ! i"
    using assms(2-) by auto
qed

lemma list4_eqI:
  assumes "length xs = 4" and "xs ! 0 = a0" "xs ! 1 = a1" "xs ! 2 = a2" "xs ! 3 = a3"
  shows "xs = [a0, a1, a2, a3]"
proof (rule nth_equalityI)
  show "length xs = length [a0, a1, a2, a3]" using assms(1) by simp
next
  fix i assume "i < length xs"
  then have "i \<in> {0, 1, 2, 3}" using assms(1) by auto
  then show "xs ! i = [a0, a1, a2, a3] ! i"
    using assms(2-) by auto
qed

lemma ext_ok_dense:
  assumes "0 \<le> lda" "n \<le> lda" "m * lda \<le> int (length A)"
  shows "ext_ok m n lda A"
  unfolding ext_ok_def inb_def
proof (intro allI impI conjI)
  fix r c
  assume a: "0 \<le> r \<and> r < m \<and> 0 \<le> c \<and> c < n"
  then show "0 \<le> lda * r + c" using assms(1) by simp
  have "lda * r + c < lda * r + lda" using a assms(2) by simp
  also have "\<dots> = lda * (r + 1)" by (simp add: algebra_simps)
  also have "\<dots> \<le> lda * m" using a assms(1) by (intro mult_left_mono) auto
  finally show "lda * r + c < int (length A)" using assms(3) by (simp add: mult.commute)
qed

lemma example_3x3:
  assumes "0 < NCU" "0 < NRMAX" "0 < NCMAX" "NRMAX * NCMAX < 2 ^ 31" "3 \<le> NRMAX" "3 \<le> NCMAX"
  shows "getrf_nopivot NRMAX NCMAX NCU matA0 pivot0 3 3 [4, 3, 2, 2, 1, 1, 1, 1, 1 :: rat] 3 info =
           Inr ([4, 3, 2, 1 / 2, - 1 / 2, 0, 1 / 4, - 1 / 2, 1 / 2], info)"
proof -
  let ?A = "[4, 3, 2, 2, 1, 1, 1, 1, 1 :: rat]"
  have ok: "ext_ok 3 3 3 ?A" by (rule ext_ok_dense) simp_all
  from getrf_nopivot_value[OF assms(1-4) assms(5,6) ok _ order_refl, of matA0 pivot0 info]
  obtain A' where run: "getrf_nopivot NRMAX NCMAX NCU matA0 pivot0 3 3 ?A 3 info = Inr (A', info)"
    and len: "length A' = length ?A"
    and val: "\<forall>j c. 0 \<le> j \<and> j < 3 \<and> 0 \<le> c \<and> c < 3 \<longrightarrow>
                A' ! nat (3 * j + c) = elim 0 (3 - 1) (\<lambda>j c. ?A ! nat (3 * j + c)) j c"
    using assms(6) by auto
  have e: "elim 0 2 M = elim_step 1 (elim_step 0 M)" for M :: "int \<Rightarrow> int \<Rightarrow> rat"
    by (simp add: elim.simps)
  have "A' = [4, 3, 2, 1 / 2, - 1 / 2, 0, 1 / 4, - 1 / 2, 1 / 2]"
  proof (rule list9_eqI)
    show "length A' = 9" using len by simp
    show "A' ! 0 = 4" using val[rule_format, of 0 0] by (simp add: e elim_step_def)
    show "A' ! 1 = 3" using val[rule_format, of 0 1] by (simp add: e elim_step_def)
    show "A' ! 2 = 2" using val[rule_format, of 0 2] by (simp add: e elim_step_def)
    show "A' ! 3 = 1 / 2" using val[rule_format, of 1 0] by (simp add: e elim_step_def)
    show "A' ! 4 = - 1 / 2" using val[rule_format, of 1 1] by (simp add: e elim_step_def)
    show "A' ! 5 = 0" using val[rule_format, of 1 2] by (simp add: e elim_step_def)
    show "A' ! 6 = 1 / 4" using val[rule_format, of 2 0] by (simp add: e elim_step_def)
    show "A' ! 7 = - 1 / 2" using val[rule_format, of 2 1] by (simp add: e elim_step_def)
    show "A' ! 8 = 1 / 2" using val[rule_format, of 2 2] by (simp add: e elim_step_def)
  qed
  with run show ?thesis by simp
qed

lemma example_2x2:
  assumes "0 < NCU" "0 < NRMAX" "0 < NCMAX" "NRMAX * NCMAX < 2 ^ 31" "2 \<le> NRMAX" "2 \<le> NCMAX"
  shows "getrf_nopivot NRMAX NCMAX NCU matA0 pivot0 2 2 [4, 3, 6, 3 :: rat] 2 info =
           Inr ([4, 3, 3 / 2, - 3 / 2], info)"
proof -
  let ?A = "[4, 3, 6, 3 :: rat]"
  have ok: "ext_ok 2 2 2 ?A" by (rule ext_ok_dense) simp_all
  from getrf_nopivot_value[OF assms(1-4) assms(5,6) ok _ order_refl, of matA0 pivot0 info]
  obtain A' where run: "getrf_nopivot NRMAX NCMAX NCU matA0 pivot0 2 2 ?A 2 info = Inr (A', info)"
    and len: "length A' = length ?A"
    and val: "\<forall>j c. 0 \<le> j \<and> j < 2 \<and> 0 \<le> c \<and> c < 2 \<longrightarrow>
                A' ! nat (2 * j + c) = elim 0 (2 - 1) (\<lambda>j c. ?A ! nat (2 * j + c)) j c"
    using assms(6) by auto
  have e: "elim 0 1 M = elim_step 0 M" for M :: "int \<Rightarrow> int \<Rightarrow> rat"
    by (simp add: elim.simps)
  have "A' = [4, 3, 3 / 2, - 3 / 2]"
  proof (rule list4_eqI)
    show "length A' = 4" using len by simp
    show "A' ! 0 = 4" using val[rule_format, of 0 0] by (simp add: e elim_step_def)
    show "A' ! 1 = 3" using val[rule_format, of 0 1] by (simp add: e elim_step_def)
    show "A' ! 2 = 3 / 2" using val[rule_format, of 1 0] by (simp add: e elim_step_def)
    show "A' ! 3 = - 3 / 2" using val[rule_format, of 1 1] by (simp add: e elim_step_def)
  qed
  with run show ?thesis by simp
qed

lemma int_upto_2: "{0..<2::int} = {0, 1}"
  by auto

text \<open>
  C4, as amended: for \<open>A = [[4,3,2],[2,1,1],[1,1,1]]\<close> (\<open>m = n = lda = 3\<close>) the call returns the
  buffer \<open>[[4,3,2],[1/2,-1/2,0],[1/4,-1/2,1/2]]\<close>, that is
  \<open>L = [[1,0,0],[1/2,1,0],[1/4,-1/2,1]]\<close> and \<open>U = [[4,3,2],[0,-1/2,0],[0,0,1/2]]\<close>, with no
  zero pivot; for \<open>A = [[4,3],[6,3]]\<close> (\<open>m = n = lda = 2\<close>) it returns \<open>[[4,3],[3/2,-3/2]]\<close>,
  whose factors satisfy \<open>L U = A\<close> exactly. Both hold for every lane count and all maximal
  sizes of at least 3 by 3.
\<close>

theorem concrete_scenarios:
  assumes "0 < NCU" "0 < NRMAX" "0 < NCMAX" "NRMAX * NCMAX < 2 ^ 31" "3 \<le> NRMAX" "3 \<le> NCMAX"
  shows "getrf_nopivot NRMAX NCMAX NCU matA0 pivot0 3 3 [4, 3, 2, 2, 1, 1, 1, 1, 1 :: rat] 3 info =
           Inr ([4, 3, 2, 1 / 2, - 1 / 2, 0, 1 / 4, - 1 / 2, 1 / 2], info) \<and>
         map (\<lambda>j. map (Lmat 3 [4, 3, 2, 1 / 2, - 1 / 2, 0, 1 / 4, - 1 / 2, 1 / 2 :: rat] j) [0, 1, 2]) [0, 1, 2] =
           [[1, 0, 0], [1 / 2, 1, 0], [1 / 4, - 1 / 2, 1]] \<and>
         map (\<lambda>k. map (Umat 3 [4, 3, 2, 1 / 2, - 1 / 2, 0, 1 / 4, - 1 / 2, 1 / 2 :: rat] k) [0, 1, 2]) [0, 1, 2] =
           [[4, 3, 2], [0, - 1 / 2, 0], [0, 0, 1 / 2]] \<and>
         getrf_nopivot NRMAX NCMAX NCU matA0 pivot0 2 2 [4, 3, 6, 3 :: rat] 2 info =
           Inr ([4, 3, 3 / 2, - 3 / 2], info) \<and>
         (\<forall>j c. 0 \<le> j \<and> j < 2 \<and> 0 \<le> c \<and> c < 2 \<longrightarrow>
            LU_product 2 2 2 [4, 3, 3 / 2, - 3 / 2 :: rat] j c = [4, 3, 6, 3] ! nat (2 * j + c))"
proof (intro conjI allI impI)
  show "getrf_nopivot NRMAX NCMAX NCU matA0 pivot0 3 3 [4, 3, 2, 2, 1, 1, 1, 1, 1 :: rat] 3 info =
           Inr ([4, 3, 2, 1 / 2, - 1 / 2, 0, 1 / 4, - 1 / 2, 1 / 2], info)"
    by (rule example_3x3[OF assms])
  show "map (\<lambda>j. map (Lmat 3 [4, 3, 2, 1 / 2, - 1 / 2, 0, 1 / 4, - 1 / 2, 1 / 2 :: rat] j) [0, 1, 2]) [0, 1, 2] =
           [[1, 0, 0], [1 / 2, 1, 0], [1 / 4, - 1 / 2, 1]]"
    by (simp add: Lmat_def)
  show "map (\<lambda>k. map (Umat 3 [4, 3, 2, 1 / 2, - 1 / 2, 0, 1 / 4, - 1 / 2, 1 / 2 :: rat] k) [0, 1, 2]) [0, 1, 2] =
           [[4, 3, 2], [0, - 1 / 2, 0], [0, 0, 1 / 2]]"
    by (simp add: Umat_def)
  show "getrf_nopivot NRMAX NCMAX NCU matA0 pivot0 2 2 [4, 3, 6, 3 :: rat] 2 info =
           Inr ([4, 3, 3 / 2, - 3 / 2], info)"
    by (rule example_2x2[OF assms(1-4)]) (use assms(5,6) in auto)
next
  fix j c :: int
  assume "0 \<le> j \<and> j < 2 \<and> 0 \<le> c \<and> c < 2"
  then have "(j = 0 \<or> j = 1) \<and> (c = 0 \<or> c = 1)" by auto
  then show "LU_product 2 2 2 [4, 3, 3 / 2, - 3 / 2 :: rat] j c = [4, 3, 6, 3] ! nat (2 * j + c)"
    by (auto simp: LU_product_def Lmat_def Umat_def int_upto_2)
qed

theorem concrete_scenarios_witness:
  "getrf_nopivot 3 3 2 (\<lambda>_ _ _. 9) (\<lambda>_ _ _. 7) 3 3 [4, 3, 2, 2, 1, 1, 1, 1, 1 :: rat] 3 0 =
     Inr ([4, 3, 2, 1 / 2, - 1 / 2, 0, 1 / 4, - 1 / 2, 1 / 2], 0) \<and>
   getrf_nopivot 3 3 2 (\<lambda>_ _ _. 9) (\<lambda>_ _ _. 7) 2 2 [4, 3, 6, 3 :: rat] 2 0 =
     Inr ([4, 3, 3 / 2, - 3 / 2], 0) \<and>
   LU_product 2 2 2 [4, 3, 3 / 2, - 3 / 2 :: rat] 1 1 = [4, 3, 6, 3] ! nat (2 * 1 + 1)"
proof -
  have "(0::int) < 2" "(0::int) < 3" "(0::int) < 3" "(3::int) * 3 < 2 ^ 31" "(3::int) \<le> 3" "(3::int) \<le> 3"
    by simp_all
  note c = concrete_scenarios[OF this, of "\<lambda>_ _ _. 9" "\<lambda>_ _ _. 7" 0]
  from c have "LU_product 2 2 2 [4, 3, 3 / 2, - 3 / 2 :: rat] 1 1 = [4, 3, 6, 3] ! nat (2 * 1 + 1)"
    by (elim conjE) (drule spec[of _ 1], drule spec[of _ 1], simp)
  with c show ?thesis by blast
qed

text \<open>
  The factors that C4 states for the 3 by 3 matrix (buffer \<open>[[4,3,2],[1/2,-1/2,0],[1/4,1,0]]\<close>)
  are not what the call returns.
\<close>

theorem concrete_scenarios_counterexample:
  "getrf_nopivot 3 3 1 (\<lambda>_ _ _. 0) (\<lambda>_ _ _. 0) 3 3 [4, 3, 2, 2, 1, 1, 1, 1, 1 :: rat] 3 0 =
     Inr ([4, 3, 2, 1 / 2, - 1 / 2, 0, 1 / 4, - 1 / 2, 1 / 2], 0) \<and>
   [4, 3, 2, 1 / 2, - 1 / 2, 0, 1 / 4, - 1 / 2, 1 / 2 :: rat] \<noteq> [4, 3, 2, 1 / 2, - 1 / 2, 0, 1 / 4, 1, 0]"
proof -
  have "getrf_nopivot 3 3 1 (\<lambda>_ _ _. 0) (\<lambda>_ _ _. 0) 3 3 [4, 3, 2, 2, 1, 1, 1, 1, 1 :: rat] 3 0 =
     Inr ([4, 3, 2, 1 / 2, - 1 / 2, 0, 1 / 4, - 1 / 2, 1 / 2], 0)"
    by code_simp
  then show ?thesis by simp
qed

text \<open>
  C1 fails for a tall matrix with \<open>m > NCMAX + 1\<close>: with \<open>NRMAX = 3\<close>, \<open>NCMAX = 1\<close>, one lane and the
  3 by 1 matrix \<open>[[1],[2],[3]]\<close>, whose only leading principal minor is 1, step \<open>s = 1\<close> reads
  \<open>pivot[0][1]\<close> and divides \<open>A[0][2][1]\<close>, outside the arrays of one column, whatever the
  uninitialised arrays hold.
\<close>

theorem getrf_nopivot_tall_matrix:
  "leading_minor 1 [1, 2, 3 :: rat] 1 \<noteq> 0 \<and>
   getrf_nopivot 3 1 1 matA0 pivot0 3 1 [1, 2, 3 :: rat] 1 0 = Inl OutOfBounds"
proof -
  have "getrf_nopivot 3 1 1 matA0 pivot0 3 1 [1, 2, 3 :: rat] 1 0 =
        getrf_nopivot 3 1 1 (\<lambda>_ _ _. 0) (\<lambda>_ _ _. 0) 3 1 [1, 2, 3 :: rat] 1 0"
    by (rule getrf_nopivot_indep) simp_all
  also have "\<dots> = Inl OutOfBounds" by code_simp
  finally show ?thesis by (simp add: leading_minor_def minor_mat_def)
qed

text \<open>
  C3 fails at a step \<open>s \<ge> NCMAX\<close>, which a tall matrix with \<open>m > NCMAX + 1\<close> reaches: with
  \<open>NCMAX = 1\<close>, one lane of three rows, \<open>m = 3\<close>, \<open>n = 1\<close> and \<open>s = 1\<close>, \<open>LoopPivot\<close> copies
  nothing, \<open>LoopDiv\<close> divides \<open>A[0][2][1]\<close> and \<open>rowUpdate\<close> reads \<open>pivot[1]\<close>, both outside arrays of
  one column, so no row gets the rank-1 update, whatever the buffer and the pivot array hold.
\<close>

theorem update_stage_out_of_bounds:
  fixes A :: "'a::field lanes"
  shows "LoopPivot 1 3 1 A 1 1 pivot = Inr pivot \<and>
         LoopDiv 1 3 1 1 3 a00 A = Inl OutOfBounds \<and>
         LoopMat 1 3 1 1 pivot A = Inl OutOfBounds"
proof (intro conjI)
  show "LoopPivot 1 3 1 A 1 1 pivot = Inr pivot"
    by (simp add: LoopPivot_def for_loop_done)
  show "LoopDiv 1 3 1 1 3 a00 A = Inl OutOfBounds"
    by (simp add: LoopDiv_def for_loop_step LoopDiv_body_def inb_def)
  show "LoopMat 1 3 1 1 pivot A = Inl OutOfBounds"
    by (simp add: LoopMat_def for_loop_step LoopMat_body_def rowUpdate_def inb_def)
qed

text \<open>
  C8 fails at a step \<open>s \<ge> NCMAX\<close>, which a tall matrix with \<open>m > NCMAX + 1\<close> reaches: with
  \<open>NCMAX = 1\<close>, one lane of three rows, \<open>m = 3\<close> and \<open>n = 1\<close>, step \<open>0\<close> runs, but step \<open>1\<close> and
  with it the steps after step \<open>0\<close> read and write outside arrays of one column, so nothing
  is known of the rows and columns they should leave unchanged.
\<close>

theorem frozen_region_out_of_bounds:
  fixes A :: "'a::field lanes"
  shows "(\<exists>A1. sweep 3 1 1 pivot0 3 1 0 A = Inr A1) \<and>
         sweep 3 1 1 pivot0 3 1 1 A = Inl OutOfBounds \<and>
         (\<forall>A1. for_loop (0 + 1) (3 - 1) (sweep 3 1 1 pivot0 3 1) A1 = Inl OutOfBounds)"
proof (intro conjI allI)
  have "sweep 3 1 1 pivot0 3 1 0 A = Inr (sweep_post 3 1 1 pivot0 3 1 0 A)"
    by (rule sweep_closed) (simp_all add: inb_def)
  then show "\<exists>A1. sweep 3 1 1 pivot0 3 1 0 A = Inr A1" by blast
  show oob: "sweep 3 1 1 pivot0 3 1 1 B = Inl OutOfBounds" for B :: "'a lanes"
    by (rule sweep_oob) (simp add: inb_def)
  show "for_loop (0 + 1) (3 - 1) (sweep 3 1 1 pivot0 3 1) A1 = Inl OutOfBounds" for A1 :: "'a lanes"
    by (simp add: for_loop_step oob)
qed

end
